theory Spec2Isabelle
  imports Main "HOL-Library.Multiset"
begin

section \<open>Reading, sorting and comparing two directories (GNU diff, dir.c)\<close>

text \<open>
  A file name is the byte sequence of a C string before its terminating NUL, so a
  well-formed name contains no NUL byte.
\<close>

definition NUL :: char where
  "NUL = CHR 0x00"

definition cstring :: "string \<Rightarrow> bool" where
  "cstring s = (NUL \<notin> set s)"

text \<open>Reading byte \<open>i\<close> of a C string; index \<open>strlen s\<close> holds the terminator.\<close>

definition byte_at :: "string \<Rightarrow> nat \<Rightarrow> char" where
  "byte_at s i = (if i < length s then s ! i else NUL)"

subsection \<open>Library functions the code relies on\<close>

text \<open>
  \<open>strcmp\<close> (which system.h makes the default \<open>file_name_cmp\<close>): the difference of the
  first pair of differing bytes, read as unsigned char, the end of a string being the
  byte 0.
\<close>

fun strcmp :: "string \<Rightarrow> string \<Rightarrow> int" where
  "strcmp [] [] = 0"
| "strcmp [] (y # ys) = - int (of_char y)"
| "strcmp (x # xs) [] = int (of_char x)"
| "strcmp (x # xs) (y # ys) =
     (if x = y then strcmp xs ys else int (of_char x) - int (of_char y))"

definition file_name_cmp :: "string \<Rightarrow> string \<Rightarrow> int" where
  "file_name_cmp = strcmp"

text \<open>
  \<open>strcasecmp\<close> in the C locale, the fallback system.h gives for \<open>strcasecoll\<close>: bytes are
  compared after folding the ASCII upper-case letters to lower case.
\<close>

definition c_tolower :: "char \<Rightarrow> char" where
  "c_tolower c =
     (if (65::nat) \<le> of_char c \<and> of_char c \<le> (90::nat)
      then char_of (of_char c + (32::nat)) else c)"

definition strcasecmp :: "string \<Rightarrow> string \<Rightarrow> int" where
  "strcasecmp a b = strcmp (map c_tolower a) (map c_tolower b)"

definition EXIT_SUCCESS :: int where
  "EXIT_SUCCESS = 0"

definition EXIT_TROUBLE :: int where
  "EXIT_TROUBLE = 2"

subsection \<open>Data\<close>

text \<open>
  An open directory stream: the entry names successive \<open>readdir\<close> calls return, and the
  \<open>errno\<close> left by the call that returns the null pointer (0 at a clean end).
\<close>

record DIR =
  entries :: "string list"
  end_errno :: int

record struct_stat =
  st_dev :: nat
  st_ino :: nat
  st_mode :: nat
  st_rdev :: nat

record file_data =
  name :: string
  desc :: int
  dirstream :: "DIR option"
  stat :: struct_stat

text \<open>
  \<open>struct dirdata\<close>: \<open>names\<close> is the vector of names (its final null slot implicit),
  \<open>data\<close> the packed storage the names point into; \<open>None\<close> is the null pointer.
\<close>

record dirdata =
  nnames :: nat
  names :: "string list option"
  data :: "string option"

text \<open>
  \<open>struct comparison\<close>. The chain of parents ends in the object \<open>noparent\<close>, which has
  a file array of its own and no parent.
\<close>

datatype comparison =
    Noparent (file0: file_data) (file1: file_data)
  | Comparison (file0: file_data) (file1: file_data) (parent: comparison)

definition file_at :: "comparison \<Rightarrow> nat \<Rightarrow> file_data" where
  "file_at c i = (if i = 0 then file0 c else file1 c)"

fun is_noparent :: "comparison \<Rightarrow> bool" where
  "is_noparent (Noparent _ _) = True"
| "is_noparent (Comparison _ _ _) = False"

text \<open>What the code writes or asks of the outside world, in order.\<close>

datatype event =
    Sys_openat int string bool
  | Sys_fdopendir int
  | Sys_readdir
  | Error_compare int string string
  | Error_loop string
  | Perror_with_name string

text \<open>
  The state the functions share: the file-static flag \<open>locale_specific_sorting\<close>, the
  jump buffer \<open>failed_locale_specific_sorting\<close> (the number of the \<open>diff_dirs\<close> activation
  whose \<open>setjmp\<close> filled it last, 0 before any), the number of activations so far, the
  trace of system calls and diagnostics, and the number of heap blocks allocated and
  not yet freed.
\<close>

record world =
  locale_specific_sorting :: bool
  failed_locale_specific_sorting :: nat
  activations :: nat
  trace :: "event list"
  allocated :: int

text \<open>
  Everything dir.c takes from elsewhere: the option flags of diff.h, the exclusion
  predicate, the locale's collation functions (each returns its value and the \<open>errno\<close>
  it leaves), the system calls on directories (the third argument of \<open>openat\<close> tells
  whether \<open>O_NOFOLLOW\<close> is set; a negative result is a failure), gnulib's path helpers,
  and the constants and configuration macros that the sources leave to other headers.
\<close>

record env =
  ignore_file_name_case :: bool
  no_dereference_symlinks :: bool
  starting_file :: "string option"
  excluded_file_name :: "string \<Rightarrow> bool"
  strcoll :: "string \<Rightarrow> string \<Rightarrow> int \<times> int"
  strcasecoll :: "string \<Rightarrow> string \<Rightarrow> int \<times> int"
  openat :: "int \<Rightarrow> string \<Rightarrow> bool \<Rightarrow> int"
  fdopendir :: "int \<Rightarrow> DIR option"
  last_component :: "string \<Rightarrow> string"
  file_name_concat :: "string \<Rightarrow> string \<Rightarrow> string"
  NONEXISTENT :: int
  AT_FDCWD :: int
  HAVE_STRUCT_STAT_ST_RDEV :: bool
  S_ISBLK :: "nat \<Rightarrow> bool"
  S_ISCHR :: "nat \<Rightarrow> bool"

text \<open>
  The result of code that runs under the jump buffer: it returns, or \<open>compare_collated\<close>
  has printed its diagnostic (the \<open>errno\<close> and the two names) and called \<open>longjmp\<close>.
\<close>

datatype 'a jmp = Ret 'a | Longjmp int string string

text \<open>Executions that C leaves undefined.\<close>

datatype error =
    Stale_longjmp
  | Longjmp_before_setjmp
  | Sort_past_end

subsection \<open>The name comparator\<close>

definition compare_collated :: "env \<Rightarrow> string \<Rightarrow> string \<Rightarrow> int jmp" where
  "compare_collated e name1 name2 =
     (let (r, errno) = (if ignore_file_name_case e
                        then strcasecoll e name1 name2
                        else strcoll e name1 name2)
      in if errno \<noteq> 0 then Longjmp errno name1 name2 else Ret r)"

definition compare_names :: "env \<Rightarrow> world \<Rightarrow> string \<Rightarrow> string \<Rightarrow> int jmp" where
  "compare_names e w name1 name2 =
     (if locale_specific_sorting w
      then (case compare_collated e name1 name2 of
              Longjmp en a b \<Rightarrow> Longjmp en a b
            | Ret diff \<Rightarrow>
                if diff \<noteq> 0 \<or> ignore_file_name_case e then Ret diff
                else Ret (file_name_cmp name1 name2))
      else Ret (file_name_cmp name1 name2))"

definition compare_names_for_qsort :: "env \<Rightarrow> world \<Rightarrow> string \<Rightarrow> string \<Rightarrow> int jmp" where
  "compare_names_for_qsort e w name1 name2 =
     (if locale_specific_sorting w
      then (case compare_collated e name1 name2 of
              Longjmp en a b \<Rightarrow> Longjmp en a b
            | Ret diff \<Rightarrow>
                if diff \<noteq> 0 then Ret diff
                else Ret (file_name_cmp name1 name2))
      else Ret (file_name_cmp name1 name2))"

subsection \<open>The directory reader\<close>

definition strlen :: "string \<Rightarrow> nat" where
  "strlen s = length (takeWhile (\<lambda>c. c \<noteq> NUL) s)"

text \<open>
  The final loop of \<open>dir_read\<close>: \<open>names[i] = data; data += strlen (data) + 1\<close>. Each name
  is the C string that starts at the current position of the packed storage.
\<close>

fun unpack_names :: "string \<Rightarrow> nat \<Rightarrow> string list" where
  "unpack_names buf 0 = []"
| "unpack_names buf (Suc n) =
     takeWhile (\<lambda>c. c \<noteq> NUL) buf # unpack_names (drop (strlen buf + 1) buf) n"

text \<open>Lines 113 and 114: the entry is \<open>.\<close> or \<open>..\<close>.\<close>

definition dot_or_dotdot :: "string \<Rightarrow> bool" where
  "dot_or_dotdot d_name =
     (byte_at d_name 0 = CHR ''.''
      \<and> (byte_at d_name 1 = NUL \<or> (byte_at d_name 1 = CHR ''.'' \<and> byte_at d_name 2 = NUL)))"

text \<open>Lines 117 to 122: whether the restart cursor makes the loop skip the entry.\<close>

definition cursor_skips :: "env \<Rightarrow> world \<Rightarrow> string option \<Rightarrow> bool \<Rightarrow> string \<Rightarrow> bool jmp" where
  "cursor_skips e w startfile startfile_only d_name =
     (case startfile of
        None \<Rightarrow> Ret False
      | Some s \<Rightarrow>
          (case compare_names e w d_name s of
             Longjmp en a b \<Rightarrow> Longjmp en a b
           | Ret cmp \<Rightarrow> Ret (cmp < 0 \<or> (startfile_only \<and> cmp \<noteq> 0))))"

text \<open>
  The \<open>readdir\<close> loop over the entries the stream still holds. \<open>buf\<close> is the used part of
  the storage (\<open>xpalloc\<close> grows it as needed, so its capacity does not limit the loop) and
  \<open>n\<close> the number of names stored so far.
\<close>

fun read_entries ::
  "env \<Rightarrow> world \<Rightarrow> string option \<Rightarrow> bool \<Rightarrow> string list \<Rightarrow> string \<Rightarrow> nat
   \<Rightarrow> (world \<times> string \<times> nat) jmp" where
  "read_entries e w startfile startfile_only [] buf n =
     Ret (w\<lparr>trace := trace w @ [Sys_readdir]\<rparr>, buf, n)"
| "read_entries e w startfile startfile_only (d_name # rest) buf n =
     (let w1 = w\<lparr>trace := trace w @ [Sys_readdir]\<rparr> in
      if dot_or_dotdot d_name
      then read_entries e w1 startfile startfile_only rest buf n
      else
        (case cursor_skips e w1 startfile startfile_only d_name of
           Longjmp en a b \<Rightarrow> Longjmp en a b
         | Ret skip \<Rightarrow>
             if skip then read_entries e w1 startfile startfile_only rest buf n
             else if excluded_file_name e d_name
             then read_entries e w1 startfile startfile_only rest buf n
             else read_entries e w1 startfile startfile_only rest
                    (buf @ d_name @ [NUL]) (Suc n)))"

text \<open>Lines 140 to 150: the vector of names is built from the storage.\<close>

definition make_names ::
  "world \<Rightarrow> file_data \<Rightarrow> dirdata \<Rightarrow> string \<Rightarrow> nat \<Rightarrow> (world \<times> file_data \<times> dirdata \<times> bool) jmp" where
  "make_names w dir dirdata buf n =
     Ret (w\<lparr>allocated := allocated w + 1\<rparr>, dir,
          dirdata\<lparr>names := Some (unpack_names buf n), nnames := n\<rparr>, True)"

text \<open>Lines 88 to 150: the directory is open on \<open>dirfd\<close>.\<close>

definition read_stream ::
  "env \<Rightarrow> world \<Rightarrow> file_data \<Rightarrow> dirdata \<Rightarrow> int \<Rightarrow> string option \<Rightarrow> bool
   \<Rightarrow> (world \<times> file_data \<times> dirdata \<times> bool) jmp" where
  "read_stream e w dir dirdata dirfd startfile startfile_only =
     (let w1 = w\<lparr>trace := trace w @ [Sys_fdopendir dirfd]\<rparr> in
      case fdopendir e dirfd of
        None \<Rightarrow> Ret (w1, dir, dirdata, False)
      | Some reading \<Rightarrow>
          (let dir1 = dir\<lparr>dirstream := Some reading\<rparr>;
               w2 = w1\<lparr>allocated := allocated w1 + 1\<rparr>
           in case read_entries e w2 startfile startfile_only (entries reading) [] 0 of
                Longjmp en a b \<Rightarrow> Longjmp en a b
              | Ret (w3, buf, n) \<Rightarrow>
                  if end_errno reading \<noteq> 0
                  then Ret (w3, dir1, dirdata\<lparr>data := Some buf\<rparr>, False)
                  else make_names w3 dir1 (dirdata\<lparr>data := Some buf\<rparr>) buf n))"

text \<open>
  \<open>dir_read\<close> returns the state, the directory and the table as it leaves them, and its
  boolean result.
\<close>

definition dir_read ::
  "env \<Rightarrow> world \<Rightarrow> int \<Rightarrow> file_data \<Rightarrow> dirdata \<Rightarrow> string option \<Rightarrow> bool
   \<Rightarrow> (world \<times> file_data \<times> dirdata \<times> bool) jmp" where
  "dir_read e w parentdirfd dir dirdata startfile startfile_only =
     (let dirdata1 = dirdata\<lparr>names := None, data := None\<rparr> in
      if desc dir \<noteq> NONEXISTENT e then
        (if desc dir < 0 then
           (let path = (if parentdirfd < 0 then name dir else last_component e (name dir));
                nofollow = no_dereference_symlinks e;
                w1 = w\<lparr>trace := trace w @ [Sys_openat parentdirfd path nofollow]\<rparr>;
                dirfd = openat e parentdirfd path nofollow
            in if dirfd < 0 then Ret (w1, dir, dirdata1, False)
               else read_stream e w1 (dir\<lparr>desc := dirfd\<rparr>) dirdata1 dirfd
                      startfile startfile_only)
         else read_stream e w dir dirdata1 (desc dir) startfile startfile_only)
      else make_names w dir dirdata1 [] 0)"

text \<open>\<open>free\<close> on the two pointers of a table; freeing a null pointer does nothing.\<close>

definition free_dirdata :: "world \<Rightarrow> dirdata \<Rightarrow> world" where
  "free_dirdata w dirdata =
     w\<lparr>allocated := allocated w - (if names dirdata = None then 0 else 1)
                     - (if data dirdata = None then 0 else 1)\<rparr>"

text \<open>The local tables of the callers start uninitialised; no field is read before it is set.\<close>

definition uninitialized_dirdata :: dirdata where
  "uninitialized_dirdata = \<lparr>nnames = 0, names = None, data = None\<rparr>"

subsection \<open>The loop detector\<close>

text \<open>
  Modelled from the spec: gnulib's \<open>SAME_INODE\<close> (same-inode.h is not among the sources),
  the same device and inode.
\<close>

definition SAME_INODE :: "struct_stat \<Rightarrow> struct_stat \<Rightarrow> bool" where
  "SAME_INODE a b = (st_ino a = st_ino b \<and> st_dev a = st_dev b)"

definition same_special_file :: "env \<Rightarrow> struct_stat \<Rightarrow> struct_stat \<Rightarrow> bool" where
  "same_special_file e s t =
     (if HAVE_STRUCT_STAT_ST_RDEV e
      then ((S_ISBLK e (st_mode s) \<and> S_ISBLK e (st_mode t))
            \<or> (S_ISCHR e (st_mode s) \<and> S_ISCHR e (st_mode t)))
           \<and> st_rdev s = st_rdev t
      else False)"

definition same_file :: "env \<Rightarrow> struct_stat \<Rightarrow> struct_stat \<Rightarrow> int" where
  "same_file e s t = (if SAME_INODE s t \<or> same_special_file e s t then 1 else 0)"

text \<open>The loop of \<open>dir_loop\<close>, at the ancestor \<open>p\<close> it has just stepped to.\<close>

fun loop_from :: "env \<Rightarrow> comparison \<Rightarrow> nat \<Rightarrow> struct_stat \<Rightarrow> bool" where
  "loop_from e (Noparent g0 g1) i st = False"
| "loop_from e (Comparison g0 g1 q) i st =
     (if 0 < same_file e (stat (file_at (Comparison g0 g1 q) i)) st then True
      else loop_from e q i st)"

fun dir_loop :: "env \<Rightarrow> comparison \<Rightarrow> nat \<Rightarrow> bool" where
  "dir_loop e (Comparison f0 f1 p) i =
     loop_from e p i (stat (file_at (Comparison f0 f1 p) i))"

subsection \<open>Sorting\<close>

text \<open>
  C leaves the algorithm of \<open>qsort\<close> open; it is modelled as an insertion sort that calls
  \<open>compare_names_for_qsort\<close>, and stops when a comparison jumps. An interrupted sort
  leaves the vector permuted; the sort that follows a jump compares bytes only, so its
  result does not depend on that permutation and the model restarts from the vector
  as it was. Which names a sort compares, and in which order, is a choice of this
  definition; the library may compare other pairs of the same vector.
\<close>

fun insert_name :: "env \<Rightarrow> world \<Rightarrow> string \<Rightarrow> string list \<Rightarrow> string list jmp" where
  "insert_name e w x [] = Ret [x]"
| "insert_name e w x (y # ys) =
     (case compare_names_for_qsort e w x y of
        Longjmp en a b \<Rightarrow> Longjmp en a b
      | Ret c \<Rightarrow>
          if c \<le> 0 then Ret (x # y # ys)
          else (case insert_name e w x ys of
                  Longjmp en a b \<Rightarrow> Longjmp en a b
                | Ret zs \<Rightarrow> Ret (y # zs)))"

fun qsort :: "env \<Rightarrow> world \<Rightarrow> string list \<Rightarrow> string list jmp" where
  "qsort e w [] = Ret []"
| "qsort e w (x # xs) =
     (case qsort e w xs of
        Longjmp en a b \<Rightarrow> Longjmp en a b
      | Ret ys \<Rightarrow> insert_name e w x ys)"

text \<open>
  \<open>qsort (names[i], dirdata[i].nnames, ...)\<close>, where \<open>ns\<close> holds the names from the cursor
  \<open>names[i]\<close> to the null slot. With the cursor at the start the whole vector is sorted.
  Once the merge has advanced the cursor, the \<open>nnames\<close> slots from it reach the null slot
  and beyond: with one name there is nothing to compare, with more the comparison
  function is handed the null pointer.
\<close>

definition sort_names :: "env \<Rightarrow> world \<Rightarrow> nat \<Rightarrow> string list \<Rightarrow> error + string list jmp" where
  "sort_names e w nn ns =
     (if length ns = nn then Inr (qsort e w ns)
      else if nn \<le> 1 then Inr (Ret ns)
      else Inl Sort_past_end)"

text \<open>Lines 257 to 259: both vectors are sorted, side 0 first.\<close>

definition sort_both ::
  "env \<Rightarrow> world \<Rightarrow> nat \<times> nat \<Rightarrow> string list \<Rightarrow> string list
   \<Rightarrow> error + (string list \<times> string list) jmp" where
  "sort_both e w nn n0 n1 =
     (case sort_names e w (fst nn) n0 of
        Inl err \<Rightarrow> Inl err
      | Inr (Longjmp en a b) \<Rightarrow> Inr (Longjmp en a b)
      | Inr (Ret s0) \<Rightarrow>
          (case sort_names e w (snd nn) n1 of
             Inl err \<Rightarrow> Inl err
           | Inr (Longjmp en a b) \<Rightarrow> Inr (Longjmp en a b)
           | Inr (Ret s1) \<Rightarrow> Inr (Ret (s0, s1))))"

subsection \<open>The pairing merge\<close>

text \<open>
  The loop of lines 284 to 299 over the names that follow the first one of the lesser
  side: \<open>Some k\<close> when it ends at \<open>p = lesser + 1 + k\<close> with \<open>c = 0\<close>, \<open>None\<close> when it ends
  otherwise.
\<close>

fun find_match :: "env \<Rightarrow> world \<Rightarrow> string \<Rightarrow> string list \<Rightarrow> nat option jmp" where
  "find_match e w greater_name [] = Ret None"
| "find_match e w greater_name (p # ps) =
     (case compare_names e w p greater_name of
        Longjmp en a b \<Rightarrow> Longjmp en a b
      | Ret r \<Rightarrow>
          if r \<noteq> 0 then Ret None
          else (let c = file_name_cmp p greater_name in
                if 0 \<le> c then Ret (if c = 0 then Some 0 else None)
                else (case find_match e w greater_name ps of
                        Longjmp en a b \<Rightarrow> Longjmp en a b
                      | Ret None \<Rightarrow> Ret None
                      | Ret (Some k) \<Rightarrow> Ret (Some (Suc k)))))"

text \<open>
  With a match at \<open>p\<close>, \<open>memmove\<close> shifts the names before \<open>p\<close> up by one slot, over \<open>*p\<close>,
  and the first slot receives the pointer \<open>greater_name\<close>.
\<close>

definition prefer_match :: "env \<Rightarrow> world \<Rightarrow> string \<Rightarrow> string list \<Rightarrow> string list jmp" where
  "prefer_match e w greater_name lesser =
     (case find_match e w greater_name (tl lesser) of
        Longjmp en a b \<Rightarrow> Longjmp en a b
      | Ret None \<Rightarrow> Ret lesser
      | Ret (Some k) \<Rightarrow>
          Ret (greater_name # take (Suc k) lesser @ drop (Suc (Suc k)) lesser))"

text \<open>
  Lines 267 to 301, with at least one vector non-empty: the order of the two current
  names and the vectors after the tie-break.
\<close>

definition next_pair ::
  "env \<Rightarrow> world \<Rightarrow> string list \<Rightarrow> string list \<Rightarrow> (int \<times> string list \<times> string list) jmp" where
  "next_pair e w n0 n1 =
     (case n0 of
        [] \<Rightarrow> Ret (1, n0, n1)
      | a # as \<Rightarrow>
          (case n1 of
             [] \<Rightarrow> Ret (- 1, n0, n1)
           | b # bs \<Rightarrow>
               (case compare_names e w a b of
                  Longjmp en x y \<Rightarrow> Longjmp en x y
                | Ret nameorder \<Rightarrow>
                    if nameorder = 0 \<and> ignore_file_name_case e then
                      (let raw_order = file_name_cmp a b in
                       if raw_order \<noteq> 0 then
                         (if raw_order < 0
                          then (case prefer_match e w b n0 of
                                  Longjmp en x y \<Rightarrow> Longjmp en x y
                                | Ret m0 \<Rightarrow> Ret (nameorder, m0, n1))
                          else (case prefer_match e w a n1 of
                                  Longjmp en x y \<Rightarrow> Longjmp en x y
                                | Ret m1 \<Rightarrow> Ret (nameorder, n0, m1)))
                       else Ret (nameorder, n0, n1))
                    else Ret (nameorder, n0, n1))))"

text \<open>
  An argument of the handler, \<open>absent ? 0 : *names[i]++\<close>. The cursor is never read at the
  null slot: \<open>nameorder\<close> makes the exhausted side absent.
\<close>

definition take_name :: "bool \<Rightarrow> string list \<Rightarrow> string option \<times> string list" where
  "take_name absent ns =
     (if absent then (None, ns)
      else (case ns of [] \<Rightarrow> (None, []) | x # xs \<Rightarrow> (Some x, xs)))"

text \<open>
  \<open>longjmp\<close> arrives at the \<open>setjmp\<close> of line 253, after the diagnostic of
  \<open>compare_collated\<close>. This is defined only if the buffer was filled by the activation
  \<open>fr\<close> that is running; a buffer filled by a nested activation belongs to a function
  that has returned.
\<close>

definition landing :: "nat \<Rightarrow> world \<Rightarrow> int \<Rightarrow> string \<Rightarrow> string \<Rightarrow> error + world" where
  "landing fr w en a b =
     (let w1 = w\<lparr>trace := trace w @ [Error_compare en a b]\<rparr> in
      if failed_locale_specific_sorting w1 = fr
      then Inr (w1\<lparr>locale_specific_sorting := False\<rparr>)
      else Inl Stale_longjmp)"

text \<open>
  Lines 253 to 308 of the activation \<open>fr\<close>: sorting, then the merge loop, with \<open>n0\<close> and
  \<open>n1\<close> the names from the two cursors on, \<open>val\<close> the running maximum and \<open>calls\<close> the
  pairs handed to the handler so far. The handler receives the state and returns the new
  one with its value; it may itself run into undefined behaviour.
\<close>

datatype phase = Sorting | Merging

type_synonym pair = "string option \<times> string option"

type_synonym handler =
  "world \<Rightarrow> comparison \<Rightarrow> string option \<Rightarrow> string option \<Rightarrow> error + world \<times> int"

lemma insert_name_length: "insert_name e w x ys = Ret zs \<Longrightarrow> length zs = Suc (length ys)"
  by (induction ys arbitrary: zs) (auto split: jmp.splits if_splits)

lemma qsort_length: "qsort e w xs = Ret ys \<Longrightarrow> length ys = length xs"
  by (induction xs arbitrary: ys) (auto split: jmp.splits dest: insert_name_length)

lemma compare_names_for_qsort_raw:
  "\<not> locale_specific_sorting w \<Longrightarrow> compare_names_for_qsort e w a b = Ret (file_name_cmp a b)"
  by (simp add: compare_names_for_qsort_def)

lemma compare_names_raw:
  "\<not> locale_specific_sorting w \<Longrightarrow> compare_names e w a b = Ret (file_name_cmp a b)"
  by (simp add: compare_names_def)

lemma insert_name_raw: "\<not> locale_specific_sorting w \<Longrightarrow> \<exists>zs. insert_name e w x ys = Ret zs"
  by (induction ys) (auto simp: compare_names_for_qsort_raw split: jmp.splits)

lemma qsort_raw: "\<not> locale_specific_sorting w \<Longrightarrow> \<exists>ys. qsort e w xs = Ret ys"
proof (induction xs)
  case Nil
  then show ?case by simp
next
  case (Cons x xs)
  then obtain ys where "qsort e w xs = Ret ys" by blast
  with insert_name_raw [OF Cons.prems, of e x ys] show ?case by auto
qed

lemma sort_both_jump:
  assumes "sort_both e w nn n0 n1 = Inr (Longjmp en a b)"
  shows "locale_specific_sorting w"
proof (rule ccontr)
  assume raw: "\<not> locale_specific_sorting w"
  from qsort_raw [OF raw] have "\<And>xs. qsort e w xs \<noteq> Longjmp en a b" by (metis jmp.distinct(1))
  with assms show False
    by (auto simp: sort_both_def sort_names_def split: sum.splits jmp.splits if_splits)
qed

lemma sort_both_length:
  "sort_both e w nn n0 n1 = Inr (Ret (s0, s1)) \<Longrightarrow> length s0 = length n0 \<and> length s1 = length n1"
  by (auto simp: sort_both_def sort_names_def split: sum.splits jmp.splits if_splits
           dest: qsort_length)

lemma find_match_raw: "\<not> locale_specific_sorting w \<Longrightarrow> \<exists>r. find_match e w g ps = Ret r"
  by (induction ps) (auto simp: compare_names_raw Let_def split: jmp.splits option.splits)

lemma find_match_bound: "find_match e w g ps = Ret (Some k) \<Longrightarrow> k < length ps"
  by (induction ps arbitrary: k) (auto simp: Let_def split: jmp.splits option.splits if_splits)

lemma prefer_match_length: "prefer_match e w g ls = Ret ms \<Longrightarrow> length ms = length ls"
  by (cases ls) (auto simp: prefer_match_def split: jmp.splits option.splits dest!: find_match_bound)

lemma next_pair_jump:
  assumes "next_pair e w n0 n1 = Longjmp en a b"
  shows "locale_specific_sorting w"
proof (rule ccontr)
  assume raw: "\<not> locale_specific_sorting w"
  from find_match_raw [OF raw] have "\<And>g ps. find_match e w g ps \<noteq> Longjmp en a b"
    by (metis jmp.distinct(1))
  with assms raw show False
    by (auto simp: next_pair_def prefer_match_def compare_names_raw Let_def
             split: list.splits jmp.splits option.splits if_splits)
qed

lemma next_pair_shape:
  assumes "next_pair e w n0 n1 = Ret (nameorder, m0, m1)"
  shows "length m0 = length n0 \<and> length m1 = length n1
         \<and> (n0 = [] \<longrightarrow> 0 < nameorder) \<and> (n1 = [] \<and> n0 \<noteq> [] \<longrightarrow> nameorder < 0)"
  using assms
  by (auto simp: next_pair_def Let_def split: list.splits jmp.splits if_splits
           dest: prefer_match_length)

lemma take_name_decrease:
  assumes "next_pair e w n0 n1 = Ret (nameorder, m0, m1)" and "\<not> (n0 = [] \<and> n1 = [])"
    and "(a0, r0) = take_name (0 < nameorder) m0" and "(a1, r1) = take_name (nameorder < 0) m1"
  shows "length r0 + length r1 < length n0 + length n1"
proof -
  from next_pair_shape [OF assms(1)]
  have len: "length m0 = length n0" "length m1 = length n1"
    and s0: "n0 = [] \<longrightarrow> 0 < nameorder" and s1: "n1 = [] \<and> n0 \<noteq> [] \<longrightarrow> nameorder < 0"
    by auto
  show ?thesis
  proof (cases "0 < nameorder")
    case True
    with s1 assms(2) have "n1 \<noteq> []" by auto
    with len have "m1 \<noteq> []" by auto
    with True assms(3,4) len show ?thesis
      by (auto simp: take_name_def split: list.splits)
  next
    case False
    with s0 have "n0 \<noteq> []" by auto
    with len have "m0 \<noteq> []" by auto
    with False assms(3,4) len show ?thesis
      by (auto simp: take_name_def split: list.splits if_splits)
  qed
qed

function compare_dirs ::
  "env \<Rightarrow> handler \<Rightarrow> nat \<Rightarrow> comparison \<Rightarrow> nat \<times> nat \<Rightarrow> phase \<Rightarrow> world
   \<Rightarrow> string list \<Rightarrow> string list \<Rightarrow> int \<Rightarrow> pair list \<Rightarrow> error + world \<times> int \<times> pair list" where
  "compare_dirs e h fr cmp nn ph w n0 n1 val calls =
     (case ph of
        Sorting \<Rightarrow>
          (case sort_both e w nn n0 n1 of
             Inl err \<Rightarrow> Inl err
           | Inr (Longjmp en a b) \<Rightarrow>
               (case landing fr w en a b of
                  Inl err \<Rightarrow> Inl err
                | Inr w1 \<Rightarrow> compare_dirs e h fr cmp nn Sorting w1 n0 n1 val calls)
           | Inr (Ret (s0, s1)) \<Rightarrow> compare_dirs e h fr cmp nn Merging w s0 s1 val calls)
      | Merging \<Rightarrow>
          if n0 = [] \<and> n1 = [] then Inr (w, val, calls)
          else
            (case next_pair e w n0 n1 of
               Longjmp en a b \<Rightarrow>
                 (case landing fr w en a b of
                    Inl err \<Rightarrow> Inl err
                  | Inr w1 \<Rightarrow> compare_dirs e h fr cmp nn Sorting w1 n0 n1 val calls)
             | Ret (nameorder, m0, m1) \<Rightarrow>
                 (case take_name (0 < nameorder) m0 of
                    (a0, r0) \<Rightarrow>
                      (case take_name (nameorder < 0) m1 of
                         (a1, r1) \<Rightarrow>
                           (case h w cmp a0 a1 of
                              Inl err \<Rightarrow> Inl err
                            | Inr (w1, v1) \<Rightarrow>
                                compare_dirs e h fr cmp nn Merging w1 r0 r1
                                  (if val < v1 then v1 else val) (calls @ [(a0, a1)]))))))"
  by pat_completeness auto
termination
  apply (relation "(\<lambda>(e, h, fr, cmp, nn, ph, w, n0, n1, val, calls). length n0 + length n1)
                 <*mlex*> (\<lambda>(e, h, fr, cmp, nn, ph, w, n0, n1, val, calls).
                              if locale_specific_sorting w then 1 else 0)
                 <*mlex*> (\<lambda>(e, h, fr, cmp, nn, ph, w, n0, n1, val, calls).
                              if ph = Sorting then 1 else 0)
                 <*mlex*> {}")
  subgoal by (simp add: wf_mlex)
  subgoal by (auto simp: mlex_prod_def dest!: sort_both_length)
  subgoal by (auto simp: mlex_prod_def landing_def Let_def split: if_splits dest!: sort_both_jump)
  subgoal by (auto simp: mlex_prod_def intro: take_name_decrease)
  subgoal by (auto simp: mlex_prod_def landing_def Let_def split: if_splits dest!: next_pair_jump)
  done


subsection \<open>Comparing two directories\<close>

text \<open>The names a table points to; the code reads them only after \<open>dir_read\<close> succeeded.\<close>

definition names_of :: "dirdata \<Rightarrow> string list" where
  "names_of dirdata = (case names dirdata of None \<Rightarrow> [] | Some ns \<Rightarrow> ns)"

text \<open>\<open>perror_with_name\<close> for a side that \<open>dir_read\<close> failed on.\<close>

definition perror_if :: "bool \<Rightarrow> world \<Rightarrow> string \<Rightarrow> world" where
  "perror_if failed w nm =
     (if failed then w\<lparr>trace := trace w @ [Perror_with_name nm]\<rparr> else w)"

text \<open>
  \<open>diff_dirs\<close> returns the state, the comparison with the descriptors and streams that
  \<open>dir_read\<close> stored in it, its value, and the pairs it handed to \<open>handle_file\<close>, in order.
  A jump out of \<open>dir_read\<close> leaves the activation before its \<open>setjmp\<close>.
\<close>

fun diff_dirs ::
  "env \<Rightarrow> handler \<Rightarrow> world \<Rightarrow> comparison
   \<Rightarrow> error + world \<times> comparison \<times> int \<times> pair list" where
  "diff_dirs e handle_file w (Comparison f0 f1 p) =
     (if (desc f0 = NONEXISTENT e \<or> dir_loop e (Comparison f0 f1 p) 0)
         \<and> (desc f1 = NONEXISTENT e \<or> dir_loop e (Comparison f0 f1 p) 1)
      then Inr (w\<lparr>trace := trace w @
                    [Error_loop (name (file_at (Comparison f0 f1 p)
                                   (if desc f0 = NONEXISTENT e then 1 else 0)))]\<rparr>,
                Comparison f0 f1 p, EXIT_TROUBLE, [])
      else
        (let startfile = (if is_noparent p then starting_file e else None) in
         case dir_read e w (desc (file_at p 0)) f0 uninitialized_dirdata startfile False of
           Longjmp en a b \<Rightarrow> Inl Longjmp_before_setjmp
         | Ret (w1, g0, dirdata0, ok0) \<Rightarrow>
             (case dir_read e (perror_if (\<not> ok0) w1 (name g0)) (desc (file_at p 1)) f1
                     uninitialized_dirdata startfile False of
                Longjmp en a b \<Rightarrow> Inl Longjmp_before_setjmp
              | Ret (w2, g1, dirdata1, ok1) \<Rightarrow>
                  (let w3 = perror_if (\<not> ok1) w2 (name g1);
                       cmp = Comparison g0 g1 p;
                       val = (if ok0 \<and> ok1 then EXIT_SUCCESS else EXIT_TROUBLE)
                   in case (if val = EXIT_SUCCESS
                            then (let fr = Suc (activations w3) in
                                  compare_dirs e handle_file fr cmp
                                    (nnames dirdata0, nnames dirdata1) Sorting
                                    (w3\<lparr>locale_specific_sorting := True,
                                        failed_locale_specific_sorting := fr,
                                        activations := fr\<rparr>)
                                    (names_of dirdata0) (names_of dirdata1) val [])
                            else Inr (w3, val, [])) of
                        Inl err \<Rightarrow> Inl err
                      | Inr (w4, v, calls) \<Rightarrow>
                          Inr (free_dirdata (free_dirdata w4 dirdata0) dirdata1,
                               cmp, v, calls)))))"

subsection \<open>Finding a file name in a directory\<close>

text \<open>
  The loop of \<open>find_dir_file_pathname\<close>; \<open>match\<close> is \<open>None\<close> while it still is the pointer
  \<open>file\<close>.
\<close>

fun find_match_name :: "string \<Rightarrow> string list \<Rightarrow> string option \<Rightarrow> string option" where
  "find_match_name fil [] match = match"
| "find_match_name fil (p # ps) match =
     (if file_name_cmp p fil = 0 then Some p
      else find_match_name fil ps (if match = None then Some p else match))"

definition find_dir_file_pathname ::
  "env \<Rightarrow> world \<Rightarrow> file_data \<Rightarrow> string \<Rightarrow> (world \<times> file_data \<times> string) jmp" where
  "find_dir_file_pathname e w dir fil =
     (case (if ignore_file_name_case e
            then dir_read e w (AT_FDCWD e) dir uninitialized_dirdata (Some fil) True
            else Ret (w, dir, uninitialized_dirdata, False)) of
        Longjmp en a b \<Rightarrow> Longjmp en a b
      | Ret (w1, dir1, dirdata, ok) \<Rightarrow>
          (let match = (if ok then find_match_name fil (names_of dirdata) None else None);
               val = file_name_concat e (name dir1)
                       (case match of None \<Rightarrow> fil | Some m \<Rightarrow> m)
           in Ret (free_dirdata w1 dirdata, dir1, val)))"

text \<open>A handler that takes no part in the state of dir.c.\<close>

definition leaf_handler :: "(string option \<Rightarrow> string option \<Rightarrow> int) \<Rightarrow> handler" where
  "leaf_handler f = (\<lambda>w cmp a b. Inr (w, f a b))"

subsection \<open>Concrete environments for the examples\<close>

text \<open>
  The C locale, where \<open>strcoll\<close> is \<open>strcmp\<close> and \<open>strcasecoll\<close> is \<open>strcasecmp\<close>, neither of
  which fails, over a file system that has no directory.
\<close>

definition c_env :: env where
  "c_env =
     \<lparr>ignore_file_name_case = False, no_dereference_symlinks = False,
      starting_file = None, excluded_file_name = (\<lambda>n. False),
      strcoll = (\<lambda>a b. (strcmp a b, 0)), strcasecoll = (\<lambda>a b. (strcasecmp a b, 0)),
      openat = (\<lambda>dirfd path nofollow. - 1), fdopendir = (\<lambda>dirfd. None),
      last_component = (\<lambda>s. s), file_name_concat = (\<lambda>d f. d @ ''/'' @ f),
      NONEXISTENT = - 1, AT_FDCWD = - 100, HAVE_STRUCT_STAT_ST_RDEV = True,
      S_ISBLK = (\<lambda>m. False), S_ISCHR = (\<lambda>m. False)\<rparr>"

text \<open>A locale whose collation does not tell upper case from lower case.\<close>

definition caseless_env :: env where
  "caseless_env = c_env\<lparr>strcoll := (\<lambda>a b. (strcasecmp a b, 0))\<rparr>"

definition w_start :: world where
  "w_start =
     \<lparr>locale_specific_sorting = False, failed_locale_specific_sorting = 0,
      activations = 0, trace = [], allocated = 0\<rparr>"

definition w_collating :: world where
  "w_collating = w_start\<lparr>locale_specific_sorting := True\<rparr>"

text \<open>A directory \<open>d\<close> that opens on descriptor 3 and holds \<open>a\<close>, \<open>m\<close> and \<open>z\<close>.\<close>

definition amz_env :: env where
  "amz_env =
     c_env\<lparr>openat := (\<lambda>dirfd path nofollow. if path = ''d'' then 3 else - 1),
            fdopendir := (\<lambda>dirfd. if dirfd = 3
                                    then Some \<lparr>entries = [''a'', ''m'', ''z''], end_errno = 0\<rparr>
                                    else None)\<rparr>"

definition plain_stat :: "nat \<Rightarrow> struct_stat" where
  "plain_stat ino = \<lparr>st_dev = 1, st_ino = ino, st_mode = 0, st_rdev = 0\<rparr>"

text \<open>A directory that has not been opened yet, and one known not to exist.\<close>

definition unopened_dir :: "string \<Rightarrow> nat \<Rightarrow> file_data" where
  "unopened_dir nm ino = \<lparr>name = nm, desc = - 2, dirstream = None, stat = plain_stat ino\<rparr>"

definition nonexistent_dir :: "string \<Rightarrow> file_data" where
  "nonexistent_dir nm = \<lparr>name = nm, desc = - 1, dirstream = None, stat = plain_stat 0\<rparr>"

text \<open>
  With case-folding: the directory \<open>d\<close> holds \<open>a\<close>, \<open>M\<close>, \<open>m\<close> and \<open>z\<close> besides its dot
  entries.
\<close>

definition case_env :: env where
  "case_env =
     c_env\<lparr>ignore_file_name_case := True,
            openat := (\<lambda>dirfd path nofollow. if path = ''d'' then 3 else - 1),
            fdopendir := (\<lambda>dirfd. if dirfd = 3
                                    then Some \<lparr>entries = [''.'', ''..'', ''a'', ''M'', ''m'', ''z''],
                                               end_errno = 0\<rparr>
                                    else None)\<rparr>"

text \<open>
  A comparison at the top of the tree: its parent is \<open>noparent\<close>, whose descriptors are
  \<open>AT_FDCWD\<close>.
\<close>

definition top_cmp :: comparison where
  "top_cmp =
     Comparison (unopened_dir ''l'' 10) (unopened_dir ''r'' 11)
       (Noparent (unopened_dir [] 0\<lparr>desc := - 100\<rparr>) (unopened_dir [] 0\<lparr>desc := - 100\<rparr>))"




text \<open>
  A comparison of the subdirectories \<open>l/s\<close> and \<open>r/s\<close> below that of \<open>l\<close> and \<open>r\<close>, where
  \<open>r/s\<close> is \<open>r\<close> again (the same device and inode). In \<open>half_absent_cmp\<close> the side
  \<open>l/s\<close> is known not to exist; in \<open>half_loop_cmp\<close> it is a directory of its own.
\<close>

definition opened_dir :: "string \<Rightarrow> int \<Rightarrow> nat \<Rightarrow> file_data" where
  "opened_dir nm dirfd ino = \<lparr>name = nm, desc = dirfd, dirstream = None, stat = plain_stat ino\<rparr>"

definition loop_env :: env where
  "loop_env =
     c_env\<lparr>openat := (\<lambda>dirfd path nofollow.
                         if path = ''l/s'' then 5 else if path = ''r/s'' then 6 else - 1),
            fdopendir := (\<lambda>dirfd. if dirfd = 5
                                    then Some \<lparr>entries = [''x''], end_errno = 0\<rparr>
                                    else if dirfd = 6
                                    then Some \<lparr>entries = [''s''], end_errno = 0\<rparr>
                                    else None)\<rparr>"

definition parent_cmp :: comparison where
  "parent_cmp =
     Comparison (opened_dir ''l'' 3 10) (opened_dir ''r'' 4 11)
       (Noparent (unopened_dir [] 0\<lparr>desc := - 100\<rparr>) (unopened_dir [] 0\<lparr>desc := - 100\<rparr>))"

definition half_absent_cmp :: comparison where
  "half_absent_cmp = Comparison (nonexistent_dir ''l/s'') (unopened_dir ''r/s'' 11) parent_cmp"

definition half_loop_cmp :: comparison where
  "half_loop_cmp = Comparison (unopened_dir ''l/s'' 12) (unopened_dir ''r/s'' 11) parent_cmp"



text \<open>
  Collation fails with errno 22 on the pair of \<open>b\<close> and \<open>c\<close> and on no other. Directory \<open>l\<close>
  holds \<open>a\<close> and \<open>c\<close>, directory \<open>r\<close> holds \<open>b\<close>, so the two names meet in the merge only,
  whatever the sort compares.
\<close>

definition late_failure_env :: env where
  "late_failure_env =
     c_env\<lparr>strcoll := (\<lambda>a b. (strcmp a b,
                               if (a = ''b'' \<and> b = ''c'') \<or> (a = ''c'' \<and> b = ''b'') then 22 else 0)),
            openat := (\<lambda>dirfd path nofollow.
                         if path = ''l'' then 3 else if path = ''r'' then 4 else - 1),
            fdopendir := (\<lambda>dirfd.
                            if dirfd = 3 then Some \<lparr>entries = [''a'', ''c''], end_errno = 0\<rparr>
                            else if dirfd = 4 then Some \<lparr>entries = [''b''], end_errno = 0\<rparr>
                            else None)\<rparr>"

text \<open>
  Every collation fails with errno 22. Directories \<open>l\<close> and \<open>r\<close> hold the subdirectory \<open>s\<close>;
  \<open>l/s\<close> holds \<open>x\<close> and \<open>r/s\<close> holds \<open>y\<close>. No vector has two names, so no sort compares.
\<close>

definition nested_env :: env where
  "nested_env =
     c_env\<lparr>strcoll := (\<lambda>a b. (0, 22)),
            openat := (\<lambda>dirfd path nofollow.
                         if path = ''l'' then 3 else if path = ''r'' then 4
                         else if path = ''l/s'' then 5 else if path = ''r/s'' then 6 else - 1),
            fdopendir := (\<lambda>dirfd.
                            if dirfd = 3 then Some \<lparr>entries = [''s''], end_errno = 0\<rparr>
                            else if dirfd = 4 then Some \<lparr>entries = [''s''], end_errno = 0\<rparr>
                            else if dirfd = 5 then Some \<lparr>entries = [''x''], end_errno = 0\<rparr>
                            else if dirfd = 6 then Some \<lparr>entries = [''y''], end_errno = 0\<rparr>
                            else None)\<rparr>"

text \<open>
  Collation fails on the pair of \<open>t\<close> and \<open>u\<close> and on no other. Directory \<open>l\<close> holds \<open>s\<close> and
  \<open>t\<close>, directory \<open>r\<close> holds \<open>s\<close> and \<open>u\<close>; \<open>l/s\<close> and \<open>r/s\<close> hold \<open>x\<close>.
\<close>

definition stale_env :: env where
  "stale_env =
     c_env\<lparr>strcoll := (\<lambda>a b. (strcmp a b,
                               if (a = ''t'' \<and> b = ''u'') \<or> (a = ''u'' \<and> b = ''t'') then 22 else 0)),
            openat := (\<lambda>dirfd path nofollow.
                         if path = ''l'' then 3 else if path = ''r'' then 4
                         else if path = ''l/s'' then 5 else if path = ''r/s'' then 6 else - 1),
            fdopendir := (\<lambda>dirfd.
                            if dirfd = 3 then Some \<lparr>entries = [''s'', ''t''], end_errno = 0\<rparr>
                            else if dirfd = 4 then Some \<lparr>entries = [''s'', ''u''], end_errno = 0\<rparr>
                            else if dirfd = 5 then Some \<lparr>entries = [''x''], end_errno = 0\<rparr>
                            else if dirfd = 6 then Some \<lparr>entries = [''x''], end_errno = 0\<rparr>
                            else None)\<rparr>"

text \<open>The entry \<open>nm\<close> of \<open>dir\<close>, not opened yet.\<close>

definition subdirectory :: "file_data \<Rightarrow> string \<Rightarrow> file_data" where
  "subdirectory dir nm =
     \<lparr>name = name dir @ ''/'' @ nm, desc = - 2, dirstream = None,
      stat = plain_stat (st_ino (stat dir) + 10)\<rparr>"

text \<open>
  Modelled from the spec: a handler that recurses into a pair of matched subdirectories.
  The handler that diff.c passes (\<open>compare_files\<close>, not among the sources) calls \<open>diff_dirs\<close>
  again on two directories of the same name; here the inner call has a handler that
  does not recurse, and a name on one side only counts as a difference.
\<close>

definition descend :: "env \<Rightarrow> handler" where
  "descend e w cmp a b =
     (case a of
        None \<Rightarrow> Inr (w, 1)
      | Some x \<Rightarrow>
          (case b of
             None \<Rightarrow> Inr (w, 1)
           | Some y \<Rightarrow>
               (case diff_dirs e (leaf_handler (\<lambda>a b. 1)) w
                       (Comparison (subdirectory (file_at cmp 0) x)
                                   (subdirectory (file_at cmp 1) y) cmp) of
                  Inl err \<Rightarrow> Inl err
                | Inr (w', c, v, calls) \<Rightarrow> Inr (w', v))))"


section \<open>Properties\<close>

subsection \<open>The name comparator\<close>

text \<open>
  C1 (as amended). While collated ordering is active, \<open>compare_names\<close> returns the
  collated result whenever it is nonzero; when the collated result is equal and
  case-folding is requested, that equal result is the final answer; when the collated
  result is equal and case-folding is not requested, the raw byte-wise order decides.
\<close>

theorem compare_names_collated:
  assumes "locale_specific_sorting w" and "compare_collated e a b = Ret diff"
  shows "(diff \<noteq> 0 \<longrightarrow> compare_names e w a b = Ret diff)
         \<and> (diff = 0 \<and> ignore_file_name_case e \<longrightarrow> compare_names e w a b = Ret 0)
         \<and> (diff = 0 \<and> \<not> ignore_file_name_case e
              \<longrightarrow> compare_names e w a b = Ret (file_name_cmp a b))"
  using assms by (simp add: compare_names_def)

theorem compare_names_collated_witness:
  "compare_names caseless_env w_collating ''a'' ''b'' = Ret (- 1)
   \<and> compare_names (caseless_env\<lparr>ignore_file_name_case := True\<rparr>) w_collating ''a'' ''A''
       = Ret 0
   \<and> compare_names caseless_env w_collating ''a'' ''A'' = Ret 32"
proof -
  have on: "locale_specific_sorting w_collating"
    by (simp add: w_collating_def)
  have less: "compare_collated caseless_env ''a'' ''b'' = Ret (- 1)"
    by code_simp
  have folded: "compare_collated (caseless_env\<lparr>ignore_file_name_case := True\<rparr>) ''a'' ''A''
                = Ret 0"
    by code_simp
  have equal: "compare_collated caseless_env ''a'' ''A'' = Ret 0"
    by code_simp
  have flag: "ignore_file_name_case (caseless_env\<lparr>ignore_file_name_case := True\<rparr>)"
             "\<not> ignore_file_name_case caseless_env"
    by (simp_all add: caseless_env_def c_env_def)
  have raw: "file_name_cmp ''a'' ''A'' = 32"
    by code_simp
  from compare_names_collated [OF on less] compare_names_collated [OF on folded]
    compare_names_collated [OF on equal] flag raw
  show ?thesis by simp
qed

text \<open>
  The claim as it was written fails both ways: without case-folding a collated tie
  between \<open>a\<close> and \<open>A\<close> is not the answer (the bytes decide, 32), and with case-folding
  the tie is the answer, not the byte-wise order.
\<close>

theorem compare_names_tie_counterexample:
  "locale_specific_sorting w_collating
   \<and> \<not> ignore_file_name_case caseless_env
   \<and> compare_collated caseless_env ''a'' ''A'' = Ret 0
   \<and> compare_names caseless_env w_collating ''a'' ''A'' \<noteq> Ret 0
   \<and> ignore_file_name_case (caseless_env\<lparr>ignore_file_name_case := True\<rparr>)
   \<and> compare_collated (caseless_env\<lparr>ignore_file_name_case := True\<rparr>) ''a'' ''A'' = Ret 0
   \<and> compare_names (caseless_env\<lparr>ignore_file_name_case := True\<rparr>) w_collating ''a'' ''A''
       \<noteq> Ret (file_name_cmp ''a'' ''A'')"
  by code_simp

subsection \<open>The directory reader\<close>

lemma compare_names_trace [simp]:
  "compare_names e (w\<lparr>trace := t\<rparr>) a b = compare_names e w a b"
  by (simp add: compare_names_def)

lemma compare_names_allocated [simp]:
  "compare_names e (w\<lparr>allocated := k\<rparr>) a b = compare_names e w a b"
  by (simp add: compare_names_def)

lemma cursor_skips_trace [simp]:
  "cursor_skips e (w\<lparr>trace := t\<rparr>) startfile startfile_only d
   = cursor_skips e w startfile startfile_only d"
  by (simp add: cursor_skips_def split: option.splits)

lemma cursor_skips_allocated [simp]:
  "cursor_skips e (w\<lparr>allocated := k\<rparr>) startfile startfile_only d
   = cursor_skips e w startfile startfile_only d"
  by (simp add: cursor_skips_def split: option.splits)

text \<open>The packed storage of a list of names: each name with its terminator.\<close>

definition pack_names :: "string list \<Rightarrow> string" where
  "pack_names ns = concat (map (\<lambda>d. d @ [NUL]) ns)"

lemma takeWhile_cstring: "cstring d \<Longrightarrow> takeWhile (\<lambda>c. c \<noteq> NUL) (d @ NUL # rest) = d"
  by (induction d) (auto simp: cstring_def)

lemma unpack_pack_names:
  "\<forall>d\<in>set ns. cstring d \<Longrightarrow> unpack_names (pack_names ns @ rest) (length ns) = ns"
proof (induction ns)
  case Nil
  then show ?case by simp
next
  case (Cons d ns)
  then have d: "cstring d" by simp
  have "pack_names (d # ns) @ rest = d @ NUL # (pack_names ns @ rest)"
    by (simp add: pack_names_def)
  moreover from takeWhile_cstring [OF d]
  have "strlen (d @ NUL # (pack_names ns @ rest)) = length d"
    by (simp add: strlen_def)
  ultimately show ?case
    using Cons takeWhile_cstring [OF d] by simp
qed

lemma read_entries_kept:
  assumes "\<forall>d\<in>set ds. \<not> dot_or_dotdot d \<longrightarrow> cursor_skips e w startfile only d = Ret (skip d)"
  shows "read_entries e w startfile only ds buf n =
           Ret (w\<lparr>trace := trace w @ replicate (Suc (length ds)) Sys_readdir\<rparr>,
                buf @ pack_names
                        (filter (\<lambda>d. \<not> dot_or_dotdot d \<and> \<not> skip d \<and> \<not> excluded_file_name e d) ds),
                n + length
                      (filter (\<lambda>d. \<not> dot_or_dotdot d \<and> \<not> skip d \<and> \<not> excluded_file_name e d) ds))"
  using assms
proof (induction ds arbitrary: w buf n)
  case Nil
  then show ?case by (simp add: pack_names_def)
next
  case (Cons d ds)
  let ?w1 = "w\<lparr>trace := trace w @ [Sys_readdir]\<rparr>"
  from Cons.prems
  have "\<forall>x\<in>set ds. \<not> dot_or_dotdot x \<longrightarrow> cursor_skips e ?w1 startfile only x = Ret (skip x)"
    by simp
  note IH = Cons.IH [OF this]
  have tr: "?w1\<lparr>trace := trace ?w1 @ replicate (Suc (length ds)) Sys_readdir\<rparr>
            = w\<lparr>trace := trace w @ replicate (Suc (length (d # ds))) Sys_readdir\<rparr>"
    by simp
  show ?case
  proof (cases "dot_or_dotdot d")
    case True
    then show ?thesis by (simp add: Let_def IH)
  next
    case False
    with Cons.prems have "cursor_skips e w startfile only d = Ret (skip d)"
      by simp
    with False show ?thesis by (simp add: Let_def pack_names_def IH)
  qed
qed


text \<open>The names \<open>dir_read\<close> keeps of a stream, given what the cursor skips.\<close>

definition kept_names :: "env \<Rightarrow> (string \<Rightarrow> bool) \<Rightarrow> string list \<Rightarrow> string list" where
  "kept_names e skip ds =
     filter (\<lambda>d. \<not> dot_or_dotdot d \<and> \<not> skip d \<and> \<not> excluded_file_name e d) ds"

lemma kept_names_cstring: "\<forall>d\<in>set ds. cstring d \<Longrightarrow> \<forall>d\<in>set (kept_names e skip ds). cstring d"
  by (simp add: kept_names_def)

lemma read_stream_ok:
  assumes "fdopendir e dirfd = Some reading" and "end_errno reading = 0"
    and "\<forall>d\<in>set (entries reading). cstring d"
    and "\<forall>d\<in>set (entries reading).
           \<not> dot_or_dotdot d \<longrightarrow> cursor_skips e w startfile only d = Ret (skip d)"
  shows "read_stream e w dir dirdata dirfd startfile only =
           Ret (w\<lparr>trace := trace w @ Sys_fdopendir dirfd
                               # replicate (Suc (length (entries reading))) Sys_readdir,
                  allocated := allocated w + 2\<rparr>,
                dir\<lparr>dirstream := Some reading\<rparr>,
                dirdata\<lparr>data := Some (pack_names (kept_names e skip (entries reading))),
                        names := Some (kept_names e skip (entries reading)),
                        nnames := length (kept_names e skip (entries reading))\<rparr>,
                True)"
proof -
  let ?w2 = "w\<lparr>trace := trace w @ [Sys_fdopendir dirfd], allocated := allocated w + 1\<rparr>"
  from assms(4)
  have "\<forall>d\<in>set (entries reading).
          \<not> dot_or_dotdot d \<longrightarrow> cursor_skips e ?w2 startfile only d = Ret (skip d)"
    by simp
  from read_entries_kept [OF this, of "[]" 0]
  have loop: "read_entries e ?w2 startfile only (entries reading) [] 0 =
                Ret (?w2\<lparr>trace := trace ?w2 @ replicate (Suc (length (entries reading))) Sys_readdir\<rparr>,
                     pack_names (kept_names e skip (entries reading)),
                     length (kept_names e skip (entries reading)))"
    by (simp add: kept_names_def)
  from unpack_pack_names [OF kept_names_cstring [OF assms(3)], of e skip "[]"]
  have unpack: "unpack_names (pack_names (kept_names e skip (entries reading)))
                  (length (kept_names e skip (entries reading)))
                = kept_names e skip (entries reading)"
    by simp
  show ?thesis
    by (simp add: read_stream_def Let_def assms(1,2) loop make_names_def unpack)
qed


text \<open>The events that are system calls.\<close>

fun is_syscall :: "event \<Rightarrow> bool" where
  "is_syscall (Sys_openat dirfd path nofollow) = True"
| "is_syscall (Sys_fdopendir dirfd) = True"
| "is_syscall Sys_readdir = True"
| "is_syscall (Error_compare en a b) = False"
| "is_syscall (Error_loop nm) = False"
| "is_syscall (Perror_with_name nm) = False"

lemma read_entries_world:
  "read_entries e w startfile only ds buf n = Ret (w', buf', n')
   \<Longrightarrow> w' = w\<lparr>trace := trace w @ replicate (Suc (length ds)) Sys_readdir\<rparr>"
proof (induction ds arbitrary: w buf n)
  case Nil
  then show ?case by simp
next
  case (Cons d ds)
  let ?w1 = "w\<lparr>trace := trace w @ [Sys_readdir]\<rparr>"
  from Cons.prems obtain buf1 n1 where "read_entries e ?w1 startfile only ds buf1 n1 = Ret (w', buf', n')"
    by (auto simp: Let_def split: if_splits jmp.splits)
  from Cons.IH [OF this] show ?case by simp
qed

text \<open>
  Whatever \<open>dir_read\<close> returns, it has only added system calls to the trace, and the
  blocks it allocated are those its table points to.
\<close>

lemma read_stream_world:
  assumes "read_stream e w dir dirdata dirfd startfile only = Ret (w', dir', dirdata', ok)"
    and "names dirdata = None" and "data dirdata = None"
  shows "\<exists>evs. w' = w\<lparr>trace := trace w @ evs,
                       allocated := allocated w + (if names dirdata' = None then 0 else 1)
                                                + (if data dirdata' = None then 0 else 1)\<rparr>
               \<and> (\<forall>ev\<in>set evs. is_syscall ev) \<and> name dir' = name dir"
proof (cases "fdopendir e dirfd")
  case None
  with assms show ?thesis
    by (auto simp: read_stream_def Let_def intro!: exI [of _ "[Sys_fdopendir dirfd]"])
next
  case (Some reading)
  let ?w2 = "w\<lparr>trace := trace w @ [Sys_fdopendir dirfd], allocated := allocated w + 1\<rparr>"
  from assms(1) Some obtain w3 buf n
    where loop: "read_entries e ?w2 startfile only (entries reading) [] 0 = Ret (w3, buf, n)"
    by (auto simp: read_stream_def Let_def split: jmp.splits)
  from read_entries_world [OF loop]
  have w3: "w3 = ?w2\<lparr>trace := trace ?w2 @ replicate (Suc (length (entries reading))) Sys_readdir\<rparr>" .
  from assms Some loop show ?thesis
    by (auto simp: read_stream_def Let_def make_names_def w3 split: if_splits
             intro!: exI [of _ "Sys_fdopendir dirfd # replicate (Suc (length (entries reading))) Sys_readdir"])
qed

lemma dir_read_world:
  assumes "dir_read e w parentdirfd dir dirdata startfile only = Ret (w', dir', dirdata', ok)"
  shows "\<exists>evs. w' = w\<lparr>trace := trace w @ evs,
                       allocated := allocated w + (if names dirdata' = None then 0 else 1)
                                                + (if data dirdata' = None then 0 else 1)\<rparr>
               \<and> (\<forall>ev\<in>set evs. is_syscall ev) \<and> name dir' = name dir"
proof (cases "desc dir = NONEXISTENT e")
  case True
  with assms show ?thesis
    by (auto simp: dir_read_def make_names_def intro!: exI [of _ "[]"])
next
  case False
  note live = this
  let ?dd = "dirdata\<lparr>names := None, data := None\<rparr>"
  show ?thesis
  proof (cases "desc dir < 0")
    case True
    let ?path = "if parentdirfd < 0 then name dir else last_component e (name dir)"
    let ?ev = "Sys_openat parentdirfd ?path (no_dereference_symlinks e)"
    let ?w1 = "w\<lparr>trace := trace w @ [?ev]\<rparr>"
    let ?fd = "openat e parentdirfd ?path (no_dereference_symlinks e)"
    show ?thesis
    proof (cases "?fd < 0")
      case True
      with assms live \<open>desc dir < 0\<close> show ?thesis
        by (auto simp: dir_read_def Let_def intro!: exI [of _ "[?ev]"])
    next
      case False
      with assms live \<open>desc dir < 0\<close>
      have "read_stream e ?w1 (dir\<lparr>desc := ?fd\<rparr>) ?dd ?fd startfile only
            = Ret (w', dir', dirdata', ok)"
        by (simp add: dir_read_def Let_def)
      from read_stream_world [OF this] obtain evs
        where "w' = ?w1\<lparr>trace := trace ?w1 @ evs,
                       allocated := allocated ?w1 + (if names dirdata' = None then 0 else 1)
                                                + (if data dirdata' = None then 0 else 1)\<rparr>"
          and "\<forall>ev\<in>set evs. is_syscall ev" and "name dir' = name dir"
        by auto
      then show ?thesis
        by (auto intro!: exI [of _ "?ev # evs"])
    qed
  next
    case False
    with assms live
    have "read_stream e w dir ?dd (desc dir) startfile only = Ret (w', dir', dirdata', ok)"
      by (simp add: dir_read_def Let_def)
    from read_stream_world [OF this] show ?thesis by simp
  qed
qed

lemma dir_read_free:
  assumes "dir_read e w parentdirfd dir dirdata startfile only = Ret (w', dir', dirdata', ok)"
  shows "allocated (free_dirdata w' dirdata') = allocated w"
proof -
  from dir_read_world [OF assms] obtain evs
    where "w' = w\<lparr>trace := trace w @ evs,
                   allocated := allocated w + (if names dirdata' = None then 0 else 1)
                                            + (if data dirdata' = None then 0 else 1)\<rparr>"
    by blast
  then show ?thesis by (simp add: free_dirdata_def)
qed

lemma find_match_name_find:
  "find_match_name fil ns match =
     (case List.find (\<lambda>p. file_name_cmp p fil = 0) ns of
        Some p \<Rightarrow> Some p
      | None \<Rightarrow> (case match of
                   Some m \<Rightarrow> Some m
                 | None \<Rightarrow> (case ns of [] \<Rightarrow> None | p # ps \<Rightarrow> Some p)))"
  by (induction ns arbitrary: match) (auto split: option.splits list.splits)


lemma dir_read_ok:
  assumes "desc dir \<noteq> NONEXISTENT e"
    and "dirfd = (if desc dir < 0
                  then openat e parentdirfd
                         (if parentdirfd < 0 then name dir else last_component e (name dir))
                         (no_dereference_symlinks e)
                  else desc dir)"
    and "0 \<le> dirfd" and "fdopendir e dirfd = Some reading" and "end_errno reading = 0"
    and "\<forall>d\<in>set (entries reading). cstring d"
    and "\<forall>d\<in>set (entries reading).
           \<not> dot_or_dotdot d \<longrightarrow> cursor_skips e w startfile only d = Ret (skip d)"
  shows "\<exists>w' dir'. dir_read e w parentdirfd dir dirdata startfile only =
           Ret (w', dir',
                dirdata\<lparr>names := Some (kept_names e skip (entries reading)),
                        data := Some (pack_names (kept_names e skip (entries reading))),
                        nnames := length (kept_names e skip (entries reading))\<rparr>,
                True)
         \<and> allocated w' = allocated w + 2
         \<and> locale_specific_sorting w' = locale_specific_sorting w"
proof (cases "desc dir < 0")
  case True
  let ?path = "if parentdirfd < 0 then name dir else last_component e (name dir)"
  let ?w1 = "w\<lparr>trace := trace w @ [Sys_openat parentdirfd ?path (no_dereference_symlinks e)]\<rparr>"
  from assms(7)
  have "\<forall>d\<in>set (entries reading).
          \<not> dot_or_dotdot d \<longrightarrow> cursor_skips e ?w1 startfile only d = Ret (skip d)"
    by simp
  note rs = read_stream_ok [OF assms(4,5,6) this]
  from True assms(2) have fd: "openat e parentdirfd ?path (no_dereference_symlinks e) = dirfd"
    by simp
  from True assms(1,3)
  have "dir_read e w parentdirfd dir dirdata startfile only =
          read_stream e ?w1 (dir\<lparr>desc := dirfd\<rparr>) (dirdata\<lparr>names := None, data := None\<rparr>)
            dirfd startfile only"
    unfolding dir_read_def Let_def fd by simp
  then show ?thesis by (simp add: rs)
next
  case False
  note rs = read_stream_ok [OF assms(4,5,6,7)]
  from False assms(2) have fd: "desc dir = dirfd" by simp
  from False assms(1)
  have "dir_read e w parentdirfd dir dirdata startfile only =
          read_stream e w dir (dirdata\<lparr>names := None, data := None\<rparr>) (desc dir) startfile only"
    unfolding dir_read_def Let_def by simp
  then show ?thesis by (simp add: fd rs)
qed

text \<open>
  C8. For a directory marked \<open>NONEXISTENT\<close>, \<open>dir_read\<close> makes no system call (the trace
  is unchanged), allocates the vector of names alone, which holds no name before its
  null slot, leaves the directory untouched and returns true.
\<close>

theorem dir_read_nonexistent:
  assumes "desc dir = NONEXISTENT e"
  shows "dir_read e w parentdirfd dir dirdata startfile startfile_only =
           Ret (w\<lparr>allocated := allocated w + 1\<rparr>, dir,
                dirdata\<lparr>names := Some [], data := None, nnames := 0\<rparr>, True)"
  using assms by (simp add: dir_read_def make_names_def)

theorem dir_read_nonexistent_witness:
  "dir_read c_env w_start (- 100) (nonexistent_dir ''d'') uninitialized_dirdata None False =
     Ret (w_start\<lparr>allocated := 1\<rparr>, nonexistent_dir ''d'',
          \<lparr>nnames = 0, names = Some [], data = None\<rparr>, True)"
proof -
  have "desc (nonexistent_dir ''d'') = NONEXISTENT c_env"
    by (simp add: nonexistent_dir_def c_env_def)
  from dir_read_nonexistent [OF this, of w_start "- 100" uninitialized_dirdata None False]
  show ?thesis
    by (simp add: w_start_def uninitialized_dirdata_def)
qed

text \<open>
  C7. With a restart cursor \<open>start\<close>, a directory that can be read, and comparisons
  with the cursor that do not fail (\<open>c d\<close> is the order of entry \<open>d\<close> and the cursor under
  the current comparator), the table holds, in the order of enumeration, the entries
  that are not \<open>.\<close> or \<open>..\<close>, are not ordered before the cursor, in only-mode are not
  ordered after it either, and are not excluded.
\<close>

theorem dir_read_restart_cursor:
  assumes "desc dir \<noteq> NONEXISTENT e"
    and "dirfd = (if desc dir < 0
                  then openat e parentdirfd
                         (if parentdirfd < 0 then name dir else last_component e (name dir))
                         (no_dereference_symlinks e)
                  else desc dir)"
    and "0 \<le> dirfd" and "fdopendir e dirfd = Some reading" and "end_errno reading = 0"
    and "\<forall>d\<in>set (entries reading). cstring d"
    and "\<forall>d\<in>set (entries reading). compare_names e w d start = Ret (c d)"
  shows "\<exists>w' dir' dirdata'.
           dir_read e w parentdirfd dir dirdata (Some start) only = Ret (w', dir', dirdata', True)
           \<and> names dirdata' =
               Some (filter (\<lambda>d. \<not> dot_or_dotdot d
                                  \<and> \<not> (c d < 0 \<or> (only \<and> c d \<noteq> 0))
                                  \<and> \<not> excluded_file_name e d)
                       (entries reading))"
proof -
  from assms(7)
  have "\<forall>d\<in>set (entries reading).
          \<not> dot_or_dotdot d
          \<longrightarrow> cursor_skips e w (Some start) only d = Ret (c d < 0 \<or> (only \<and> c d \<noteq> 0))"
    by (simp add: cursor_skips_def)
  from dir_read_ok [OF assms(1-6) this, of dirdata] show ?thesis
    by (auto simp: kept_names_def)
qed

theorem dir_read_restart_cursor_witness:
  "(\<exists>w' dir' dirdata'.
      dir_read amz_env w_start (- 100) (unopened_dir ''d'' 7) uninitialized_dirdata
        (Some ''m'') False = Ret (w', dir', dirdata', True)
      \<and> names dirdata' = Some [''m'', ''z''])
   \<and> (\<exists>w' dir' dirdata'.
        dir_read amz_env w_start (- 100) (unopened_dir ''d'' 7) uninitialized_dirdata
          (Some ''m'') True = Ret (w', dir', dirdata', True)
        \<and> names dirdata' = Some [''m''])"
proof -
  let ?reading = "\<lparr>entries = [''a'', ''m'', ''z''], end_errno = 0\<rparr>"
  let ?c = "\<lambda>d. file_name_cmp d ''m''"
  have h1: "desc (unopened_dir ''d'' 7) \<noteq> NONEXISTENT amz_env"
    by (simp add: unopened_dir_def amz_env_def c_env_def)
  have h2: "3 = (if desc (unopened_dir ''d'' 7) < 0
                 then openat amz_env (- 100)
                        (if (- 100 :: int) < 0 then name (unopened_dir ''d'' 7)
                         else last_component amz_env (name (unopened_dir ''d'' 7)))
                        (no_dereference_symlinks amz_env)
                 else desc (unopened_dir ''d'' 7))"
    by (simp add: unopened_dir_def amz_env_def c_env_def)
  have h3: "(0::int) \<le> 3" by simp
  have h4: "fdopendir amz_env 3 = Some ?reading"
    by (simp add: amz_env_def c_env_def)
  have h5: "end_errno ?reading = 0" by simp
  have h6: "\<forall>d\<in>set (entries ?reading). cstring d"
    by (simp add: cstring_def NUL_def)
  have h7: "\<forall>d\<in>set (entries ?reading). compare_names amz_env w_start d ''m'' = Ret (?c d)"
    by (simp add: compare_names_def w_start_def)
  have keep: "\<not> dot_or_dotdot ''a''" "\<not> dot_or_dotdot ''m''" "\<not> dot_or_dotdot ''z''"
    by (simp_all add: dot_or_dotdot_def byte_at_def)
  have order: "?c ''a'' < 0" "?c ''m'' = 0" "0 < ?c ''z''"
    by (simp_all add: file_name_cmp_def)
  have excl: "\<And>d. \<not> excluded_file_name amz_env d"
    by (simp add: amz_env_def c_env_def)
  from dir_read_restart_cursor [OF h1 h2 h3 h4 h5 h6 h7, of uninitialized_dirdata False]
    dir_read_restart_cursor [OF h1 h2 h3 h4 h5 h6 h7, of uninitialized_dirdata True]
    keep order excl
  show ?thesis by simp
qed

subsection \<open>Finding a file name in a directory\<close>

text \<open>
  C9. Without case-folding, \<open>find_dir_file_pathname\<close> returns the join of the directory
  name and the target, and the state is untouched (no system call). With case-folding,
  for a directory that can be read and comparisons with the target that do not fail,
  it reads the run of names that compare equal to the target, and returns the join of
  the directory name with the first name of the run that is byte-wise equal to the
  target if there is one, with the first name of the run otherwise, and with the target
  itself when the run is empty. Whenever it returns, the blocks of its table have been
  freed.
\<close>

theorem find_dir_file_pathname_result:
  "(\<not> ignore_file_name_case e
    \<longrightarrow> find_dir_file_pathname e w dir fil = Ret (w, dir, file_name_concat e (name dir) fil))
   \<and> (ignore_file_name_case e \<and> desc dir \<noteq> NONEXISTENT e
       \<and> dirfd = (if desc dir < 0
                   then openat e (AT_FDCWD e)
                          (if AT_FDCWD e < 0 then name dir else last_component e (name dir))
                          (no_dereference_symlinks e)
                   else desc dir)
       \<and> 0 \<le> dirfd \<and> fdopendir e dirfd = Some reading \<and> end_errno reading = 0
       \<and> (\<forall>d\<in>set (entries reading). cstring d)
       \<and> (\<forall>d\<in>set (entries reading). compare_names e w d fil = Ret (c d))
       \<and> run = filter (\<lambda>d. \<not> dot_or_dotdot d \<and> c d = 0 \<and> \<not> excluded_file_name e d)
                  (entries reading)
       \<longrightarrow> (\<exists>w' dir'.
             find_dir_file_pathname e w dir fil =
               Ret (w', dir',
                    file_name_concat e (name dir)
                      (case List.find (\<lambda>p. file_name_cmp p fil = 0) run of
                         Some p \<Rightarrow> p
                       | None \<Rightarrow> (case run of [] \<Rightarrow> fil | p # ps \<Rightarrow> p)))))
   \<and> (\<forall>w' dir' val. find_dir_file_pathname e w dir fil = Ret (w', dir', val)
         \<longrightarrow> allocated w' = allocated w)"
proof (intro conjI impI allI)
  assume "\<not> ignore_file_name_case e"
  then show "find_dir_file_pathname e w dir fil = Ret (w, dir, file_name_concat e (name dir) fil)"
    by (simp add: find_dir_file_pathname_def free_dirdata_def uninitialized_dirdata_def)
next
  assume h: "ignore_file_name_case e \<and> desc dir \<noteq> NONEXISTENT e
       \<and> dirfd = (if desc dir < 0
                   then openat e (AT_FDCWD e)
                          (if AT_FDCWD e < 0 then name dir else last_component e (name dir))
                          (no_dereference_symlinks e)
                   else desc dir)
       \<and> 0 \<le> dirfd \<and> fdopendir e dirfd = Some reading \<and> end_errno reading = 0
       \<and> (\<forall>d\<in>set (entries reading). cstring d)
       \<and> (\<forall>d\<in>set (entries reading). compare_names e w d fil = Ret (c d))
       \<and> run = filter (\<lambda>d. \<not> dot_or_dotdot d \<and> c d = 0 \<and> \<not> excluded_file_name e d)
                  (entries reading)"
  define skip where "skip = (\<lambda>d. c d < 0 \<or> (True \<and> c d \<noteq> 0))"
  from h have "\<forall>d\<in>set (entries reading).
          \<not> dot_or_dotdot d \<longrightarrow> cursor_skips e w (Some fil) True d = Ret (skip d)"
    by (simp add: cursor_skips_def skip_def)
  with h dir_read_ok [of dir e dirfd "AT_FDCWD e" reading w "Some fil" True skip uninitialized_dirdata]
  obtain w1 dir1 where
    rd: "dir_read e w (AT_FDCWD e) dir uninitialized_dirdata (Some fil) True =
           Ret (w1, dir1,
                uninitialized_dirdata
                  \<lparr>names := Some (kept_names e skip (entries reading)),
                   data := Some (pack_names (kept_names e skip (entries reading))),
                   nnames := length (kept_names e skip (entries reading))\<rparr>,
                True)"
    by blast
  from dir_read_world [OF rd] have nm: "name dir1 = name dir" by blast
  have "\<And>d. (\<not> skip d) = (c d = 0)" by (auto simp: skip_def)
  with h have run: "kept_names e skip (entries reading) = run"
    by (simp add: kept_names_def)
  have pick: "(case find_match_name fil run None of None \<Rightarrow> fil | Some m \<Rightarrow> m)
              = (case List.find (\<lambda>p. file_name_cmp p fil = 0) run of
                         Some p \<Rightarrow> p
                       | None \<Rightarrow> (case run of [] \<Rightarrow> fil | p # ps \<Rightarrow> p))"
    by (simp add: find_match_name_find [of fil run None] split: option.splits list.splits)
  from h have "find_dir_file_pathname e w dir fil =
                 Ret (free_dirdata w1
                        (uninitialized_dirdata
                           \<lparr>names := Some run, data := Some (pack_names run),
                            nnames := length run\<rparr>),
                      dir1,
                      file_name_concat e (name dir)
                        (case find_match_name fil run None of None \<Rightarrow> fil | Some m \<Rightarrow> m))"
    by (simp add: find_dir_file_pathname_def rd Let_def names_of_def run nm)
  then show "\<exists>w' dir'.
             find_dir_file_pathname e w dir fil =
               Ret (w', dir',
                    file_name_concat e (name dir)
                      (case List.find (\<lambda>p. file_name_cmp p fil = 0) run of
                         Some p \<Rightarrow> p
                       | None \<Rightarrow> (case run of [] \<Rightarrow> fil | p # ps \<Rightarrow> p)))"
    unfolding pick by blast
next
  fix w' dir' val
  assume r: "find_dir_file_pathname e w dir fil = Ret (w', dir', val)"
  show "allocated w' = allocated w"
  proof (cases "ignore_file_name_case e")
    case False
    with r show ?thesis
      by (simp add: find_dir_file_pathname_def free_dirdata_def uninitialized_dirdata_def)
  next
    case True
    with r obtain w1 dir1 dirdata ok
      where rd: "dir_read e w (AT_FDCWD e) dir uninitialized_dirdata (Some fil) True
                 = Ret (w1, dir1, dirdata, ok)"
        and w': "w' = free_dirdata w1 dirdata"
      by (auto simp: find_dir_file_pathname_def Let_def split: jmp.splits)
    from dir_read_free [OF rd] w' show ?thesis by simp
  qed
qed

theorem find_dir_file_pathname_result_witness:
  "find_dir_file_pathname c_env w_collating (unopened_dir ''d'' 7) ''m''
     = Ret (w_collating, unopened_dir ''d'' 7, ''d/m'')
   \<and> (\<exists>w' dir'. find_dir_file_pathname case_env w_collating (unopened_dir ''d'' 7) ''m''
                   = Ret (w', dir', ''d/m'') \<and> allocated w' = allocated w_collating)
   \<and> (\<exists>w' dir'. find_dir_file_pathname case_env w_collating (unopened_dir ''d'' 7) ''Z''
                   = Ret (w', dir', ''d/z'') \<and> allocated w' = allocated w_collating)"
proof -
  let ?dir = "unopened_dir ''d'' 7"
  let ?reading = "\<lparr>entries = [''.'', ''..'', ''a'', ''M'', ''m'', ''z''], end_errno = 0\<rparr>"
  have off: "\<not> ignore_file_name_case c_env"
    by (simp add: c_env_def)
  have cat: "file_name_concat c_env (name ?dir) ''m'' = ''d/m''"
    by (simp add: c_env_def unopened_dir_def)
  have "ignore_file_name_case case_env" "desc ?dir \<noteq> NONEXISTENT case_env"
    "3 = (if desc ?dir < 0
          then openat case_env (AT_FDCWD case_env)
                 (if AT_FDCWD case_env < 0 then name ?dir
                  else last_component case_env (name ?dir))
                 (no_dereference_symlinks case_env)
          else desc ?dir)"
    "(0::int) \<le> 3" "fdopendir case_env 3 = Some ?reading" "end_errno ?reading = 0"
    by (simp_all add: case_env_def c_env_def unopened_dir_def)
  note opened = this
  have cstr: "\<forall>d\<in>set (entries ?reading). cstring d"
    by (simp add: cstring_def NUL_def)
  have cmp: "\<And>t. \<forall>d\<in>set (entries ?reading).
               compare_names case_env w_collating d t = Ret (strcasecmp d t)"
    by (simp add: compare_names_def compare_collated_def w_collating_def w_start_def
                  case_env_def c_env_def)
  have run_m: "[''M'', ''m''] = filter (\<lambda>d. \<not> dot_or_dotdot d \<and> strcasecmp d ''m'' = 0
                                      \<and> \<not> excluded_file_name case_env d) (entries ?reading)"
    by code_simp
  have run_Z: "[''z''] = filter (\<lambda>d. \<not> dot_or_dotdot d \<and> strcasecmp d ''Z'' = 0
                                      \<and> \<not> excluded_file_name case_env d) (entries ?reading)"
    by code_simp
  have pick_m: "(case List.find (\<lambda>p. file_name_cmp p ''m'' = 0) [''M'', ''m''] of
                   Some p \<Rightarrow> p | None \<Rightarrow> (case [''M'', ''m''] of [] \<Rightarrow> ''m'' | p # ps \<Rightarrow> p)) = ''m''"
    by code_simp
  have pick_Z: "(case List.find (\<lambda>p. file_name_cmp p ''Z'' = 0) [''z''] of
                   Some p \<Rightarrow> p | None \<Rightarrow> (case [''z''] of [] \<Rightarrow> ''Z'' | p # ps \<Rightarrow> p)) = ''z''"
    by code_simp
  have cat2: "\<And>x. file_name_concat case_env (name ?dir) x = ''d/'' @ x"
    by (simp add: case_env_def c_env_def unopened_dir_def)
  note t0 = find_dir_file_pathname_result [of c_env w_collating ?dir "''m''"]
  note t1 = find_dir_file_pathname_result
              [of case_env w_collating ?dir "''m''" 3 ?reading "\<lambda>d. strcasecmp d ''m''" "[''M'', ''m'']"]
  note t2 = find_dir_file_pathname_result
              [of case_env w_collating ?dir "''Z''" 3 ?reading "\<lambda>d. strcasecmp d ''Z''" "[''z'']"]
  from t0 off cat have p0: "find_dir_file_pathname c_env w_collating ?dir ''m''
     = Ret (w_collating, ?dir, ''d/m'')"
    by simp
  from t1 opened cstr cmp [of "''m''"] run_m
  have p1: "\<exists>w' dir'. find_dir_file_pathname case_env w_collating ?dir ''m''
                   = Ret (w', dir', ''d/m'') \<and> allocated w' = allocated w_collating"
    unfolding pick_m cat2 by fastforce
  from t2 opened cstr cmp [of "''Z''"] run_Z
  have p2: "\<exists>w' dir'. find_dir_file_pathname case_env w_collating ?dir ''Z''
                   = Ret (w', dir', ''d/z'') \<and> allocated w' = allocated w_collating"
    unfolding pick_Z cat2 by fastforce
  from p0 p1 p2 show ?thesis by blast
qed


subsection \<open>The pairing merge\<close>

lemma nul_char: "of_char y = (0::nat) \<Longrightarrow> y = NUL"
  unfolding NUL_def by (cases y) simp

lemma strcmp_eq: "cstring a \<Longrightarrow> cstring b \<Longrightarrow> strcmp a b = 0 \<Longrightarrow> a = b"
proof (induction a b rule: strcmp.induct)
  case 1
  then show ?case by simp
next
  case (2 y ys)
  then have "of_char y = (0::nat)" by simp
  then have "y = NUL" by (rule nul_char)
  with 2 show ?case by (simp add: cstring_def)
next
  case (3 x xs)
  then have "of_char x = (0::nat)" by simp
  then have "x = NUL" by (rule nul_char)
  with 3 show ?case by (simp add: cstring_def)
next
  case (4 x xs y ys)
  show ?case
  proof (cases "x = y")
    case True
    with 4 show ?thesis by (simp add: cstring_def)
  next
    case False
    with 4(4) have "int (of_char x) = int (of_char y)" by simp
    then have "(of_char x :: nat) = of_char y" by simp
    then have "x = y" by (simp only: of_char_eq_iff)
    with False show ?thesis by simp
  qed
qed

lemma strcmp_refl [simp]: "strcmp a a = 0"
  by (induction a) auto

text \<open>The names of side 0, and of side 1, among the pairs handed to the handler.\<close>

fun left_names :: "pair list \<Rightarrow> string list" where
  "left_names [] = []"
| "left_names ((a, b) # cs) = (case a of None \<Rightarrow> left_names cs | Some x \<Rightarrow> x # left_names cs)"

fun right_names :: "pair list \<Rightarrow> string list" where
  "right_names [] = []"
| "right_names ((a, b) # cs) = (case b of None \<Rightarrow> right_names cs | Some y \<Rightarrow> y # right_names cs)"

lemma insert_name_mset: "insert_name e w x ys = Ret zs \<Longrightarrow> mset zs = add_mset x (mset ys)"
  by (induction ys arbitrary: zs) (auto split: jmp.splits if_splits)

lemma qsort_mset: "qsort e w xs = Ret ys \<Longrightarrow> mset ys = mset xs"
  by (induction xs arbitrary: ys) (auto split: jmp.splits dest: insert_name_mset)

lemma sort_both_mset:
  "sort_both e w nn n0 n1 = Inr (Ret (s0, s1)) \<Longrightarrow> mset s0 = mset n0 \<and> mset s1 = mset n1"
  by (auto simp: sort_both_def sort_names_def split: sum.splits jmp.splits if_splits
           dest: qsort_mset)

lemma find_match_exact:
  "find_match e w g ps = Ret (Some k) \<Longrightarrow> k < length ps \<and> file_name_cmp (ps ! k) g = 0"
  by (induction ps arbitrary: k)
     (auto simp: Let_def split: jmp.splits option.splits if_splits)

lemma prefer_match_mset:
  assumes "prefer_match e w g ls = Ret ms" and "cstring g" and "\<forall>x\<in>set ls. cstring x"
  shows "mset ms = mset ls"
proof (cases "find_match e w g (tl ls)")
  case (Longjmp en a b)
  with assms(1) show ?thesis by (simp add: prefer_match_def)
next
  case (Ret r)
  show ?thesis
  proof (cases r)
    case None
    with Ret assms(1) show ?thesis by (simp add: prefer_match_def)
  next
    case (Some k)
    with Ret find_match_exact [of e w g "tl ls" k]
    have k: "k < length (tl ls)" and eq: "file_name_cmp (tl ls ! k) g = 0" by auto
    from k have len: "Suc k < length ls" by simp
    then have nth: "tl ls ! k = ls ! Suc k" by (simp add: nth_tl)
    from len assms(3) have "cstring (ls ! Suc k)" by simp
    with eq nth assms(2) have same: "ls ! Suc k = g"
      by (simp add: file_name_cmp_def strcmp_eq)
    from Some Ret assms(1) have ms: "ms = g # take (Suc k) ls @ drop (Suc (Suc k)) ls"
      by (simp add: prefer_match_def)
    from id_take_nth_drop [OF len]
    have "mset ls = mset (take (Suc k) ls) + add_mset (ls ! Suc k) (mset (drop (Suc (Suc k)) ls))"
      by (metis mset.simps(2) mset_append)
    with ms same show ?thesis by simp
  qed
qed

lemma next_pair_mset:
  assumes "next_pair e w n0 n1 = Ret (nameorder, m0, m1)"
    and "\<forall>x\<in>set n0. cstring x" and "\<forall>x\<in>set n1. cstring x"
  shows "mset m0 = mset n0 \<and> mset m1 = mset n1"
proof (cases n0)
  case Nil
  with assms(1) show ?thesis by (simp add: next_pair_def)
next
  case (Cons a as)
  note n0 = this
  show ?thesis
  proof (cases n1)
    case Nil
    with n0 assms(1) show ?thesis by (simp add: next_pair_def)
  next
    case (Cons b bs)
    from n0 Cons assms(2,3) have ca: "cstring a" and cb: "cstring b" by auto
    from assms(1) n0 Cons show ?thesis
      using prefer_match_mset [OF _ cb assms(2)] prefer_match_mset [OF _ ca assms(3)]
      by (auto simp: next_pair_def Let_def split: jmp.splits if_splits)
  qed
qed

lemma take_name_mset:
  "take_name absent ms = (a, r) \<Longrightarrow> mset (case a of None \<Rightarrow> [] | Some x \<Rightarrow> [x]) + mset r = mset ms"
  by (auto simp: take_name_def split: if_splits list.splits)

lemma left_names_append [simp]: "left_names (xs @ ys) = left_names xs @ left_names ys"
  by (induction xs rule: left_names.induct) (auto split: option.splits)

lemma right_names_append [simp]: "right_names (xs @ ys) = right_names xs @ right_names ys"
  by (induction xs rule: right_names.induct) (auto split: option.splits)



text \<open>The equation of \<open>compare_dirs\<close> is unfolded by hand, one phase at a time.\<close>

declare compare_dirs.simps [simp del]

lemma compare_dirs_sorting:
  "compare_dirs e h fr cmp nn Sorting w n0 n1 val calls =
     (case sort_both e w nn n0 n1 of
        Inl err \<Rightarrow> Inl err
      | Inr (Longjmp en a b) \<Rightarrow>
          (case landing fr w en a b of
             Inl err \<Rightarrow> Inl err
           | Inr w1 \<Rightarrow> compare_dirs e h fr cmp nn Sorting w1 n0 n1 val calls)
      | Inr (Ret (s0, s1)) \<Rightarrow> compare_dirs e h fr cmp nn Merging w s0 s1 val calls)"
  by (subst compare_dirs.simps) simp

lemma compare_dirs_merging:
  "compare_dirs e h fr cmp nn Merging w n0 n1 val calls =
     (if n0 = [] \<and> n1 = [] then Inr (w, val, calls)
      else
        (case next_pair e w n0 n1 of
           Longjmp en a b \<Rightarrow>
             (case landing fr w en a b of
                Inl err \<Rightarrow> Inl err
              | Inr w1 \<Rightarrow> compare_dirs e h fr cmp nn Sorting w1 n0 n1 val calls)
         | Ret (nameorder, m0, m1) \<Rightarrow>
             (case take_name (0 < nameorder) m0 of
                (a0, r0) \<Rightarrow>
                  (case take_name (nameorder < 0) m1 of
                     (a1, r1) \<Rightarrow>
                       (case h w cmp a0 a1 of
                          Inl err \<Rightarrow> Inl err
                        | Inr (w1, v1) \<Rightarrow>
                            compare_dirs e h fr cmp nn Merging w1 r0 r1
                              (if val < v1 then v1 else val) (calls @ [(a0, a1)]))))))"
  by (subst compare_dirs.simps) simp

text \<open>
  Whatever the handler does and whether or not collation fails on the way, a run that
  returns has handed every name of either vector to the handler exactly once.
\<close>

lemma compare_dirs_delivers:
  assumes "compare_dirs e h fr cmp nn ph w n0 n1 val calls = Inr (w', v, cs)"
    and "\<forall>x\<in>set n0. cstring x" and "\<forall>x\<in>set n1. cstring x"
  shows "\<exists>new. cs = calls @ new \<and> mset (left_names new) = mset n0
               \<and> mset (right_names new) = mset n1 \<and> length new \<le> length n0 + length n1"
  using assms
proof (induction e h fr cmp nn ph w n0 n1 val calls rule: compare_dirs.induct)
  case (1 e h fr cmp nn ph w n0 n1 val calls)
  note run = "1.prems"(1) and c0 = "1.prems"(2) and c1 = "1.prems"(3)
  show ?case
  proof (cases ph)
    case Sorting
    show ?thesis
    proof (cases "sort_both e w nn n0 n1")
      case (Inl err)
      with run Sorting show ?thesis by (simp add: compare_dirs_sorting)
    next
      case (Inr b)
      show ?thesis
      proof (cases b)
        case (Ret x1)
        obtain s0 s1 where x1: "x1 = (s0, s1)" by (cases x1)
        from Inr Ret x1 have sb: "sort_both e w nn n0 n1 = Inr (Ret (s0, s1))" by simp
        from sort_both_mset [OF sb] have ms: "mset s0 = mset n0" "mset s1 = mset n1" by auto
        then have sets: "set s0 = set n0" "set s1 = set n1" by (auto dest: mset_eq_setD)
        from ms have lens: "length s0 = length n0" "length s1 = length n1"
          by (auto dest: mset_eq_length)
        from run Sorting sb
        have "compare_dirs e h fr cmp nn Merging w s0 s1 val calls = Inr (w', v, cs)"
          by (simp add: compare_dirs_sorting)
        from "1.IH"(1) [OF Sorting sb refl refl this] c0 c1 sets ms lens
        show ?thesis by simp
      next
        case (Longjmp en a b')
        with Inr have sb: "sort_both e w nn n0 n1 = Inr (Longjmp en a b')" by simp
        show ?thesis
        proof (cases "landing fr w en a b'")
          case (Inl err)
          with run Sorting sb show ?thesis by (simp add: compare_dirs_sorting)
        next
          case (Inr w1)
          with run Sorting sb
          have "compare_dirs e h fr cmp nn Sorting w1 n0 n1 val calls = Inr (w', v, cs)"
            by (simp add: compare_dirs_sorting)
          from "1.IH"(2) [OF Sorting sb refl Inr this c0 c1] show ?thesis .
        qed
      qed
    qed
  next
    case Merging
    show ?thesis
    proof (cases "n0 = [] \<and> n1 = []")
      case True
      with run Merging show ?thesis by (simp add: compare_dirs_merging)
    next
      case False
      show ?thesis
      proof (cases "next_pair e w n0 n1")
        case (Longjmp en a b')
        show ?thesis
        proof (cases "landing fr w en a b'")
          case (Inl err)
          with run Merging False Longjmp show ?thesis by (simp add: compare_dirs_merging)
        next
          case (Inr w1)
          with run Merging False Longjmp
          have "compare_dirs e h fr cmp nn Sorting w1 n0 n1 val calls = Inr (w', v, cs)"
            by (simp add: compare_dirs_merging)
          from "1.IH"(4) [OF Merging False Longjmp Inr this c0 c1] show ?thesis .
        qed
      next
        case (Ret x1)
        obtain nameorder m0 m1 where x1: "x1 = (nameorder, m0, m1)" by (cases x1)
        with Ret have np: "next_pair e w n0 n1 = Ret (nameorder, m0, m1)" by simp
        obtain a0 r0 where t0: "take_name (0 < nameorder) m0 = (a0, r0)"
          by (cases "take_name (0 < nameorder) m0")
        obtain a1 r1 where t1: "take_name (nameorder < 0) m1 = (a1, r1)"
          by (cases "take_name (nameorder < 0) m1")
        from next_pair_mset [OF np c0 c1] have ms: "mset m0 = mset n0" "mset m1 = mset n1"
          by auto
        from take_name_mset [OF t0] ms
        have left: "mset (case a0 of None \<Rightarrow> [] | Some x \<Rightarrow> [x]) + mset r0 = mset n0" by simp
        from take_name_mset [OF t1] ms
        have right: "mset (case a1 of None \<Rightarrow> [] | Some x \<Rightarrow> [x]) + mset r1 = mset n1" by simp
        from left have "set r0 \<subseteq> set n0" by (metis mset_subset_eq_add_right set_mset_mono set_mset_mset)
        with c0 have cr0: "\<forall>x\<in>set r0. cstring x" by auto
        from right have "set r1 \<subseteq> set n1" by (metis mset_subset_eq_add_right set_mset_mono set_mset_mset)
        with c1 have cr1: "\<forall>x\<in>set r1. cstring x" by auto
        from take_name_decrease [OF np False t0 [symmetric] t1 [symmetric]]
        have less: "length r0 + length r1 < length n0 + length n1" .
        show ?thesis
        proof (cases "h w cmp a0 a1")
          case (Inl err)
          with run Merging False np t0 t1 show ?thesis by (simp add: compare_dirs_merging)
        next
          case (Inr b)
          obtain w1 v1 where b: "b = (w1, v1)" by (cases b)
          with Inr have hr: "h w cmp a0 a1 = Inr (w1, v1)" by simp
          with run Merging False np t0 t1
          have "compare_dirs e h fr cmp nn Merging w1 r0 r1 (if val < v1 then v1 else val)
                  (calls @ [(a0, a1)]) = Inr (w', v, cs)"
            by (simp add: compare_dirs_merging)
          from "1.IH"(3) [OF Merging False np refl refl t0 [symmetric] t1 [symmetric] hr refl
                             this cr0 cr1]
          obtain new where new: "cs = (calls @ [(a0, a1)]) @ new"
            "mset (left_names new) = mset r0" "mset (right_names new) = mset r1"
            "length new \<le> length r0 + length r1"
            by blast
          from new(2) left have "mset (left_names ((a0, a1) # new)) = mset n0"
            by (auto split: option.splits)
          moreover from new(3) right have "mset (right_names ((a0, a1) # new)) = mset n1"
            by (auto split: option.splits)
          moreover from new(4) less have "length ((a0, a1) # new) \<le> length n0 + length n1"
            by simp
          moreover from new(1) have "cs = calls @ (a0, a1) # new" by simp
          ultimately show ?thesis by blast
        qed
      qed
    qed
  qed
qed


text \<open>
  If collation never fails and the handler always returns, the merge returns; so does
  the sort before it, when it starts at the head of the vectors.
\<close>

lemma compare_names_returns:
  "\<forall>a b. \<exists>r. compare_collated e a b = Ret r \<Longrightarrow> \<exists>r. compare_names e w a b = Ret r"
  by (simp add: compare_names_def split: jmp.splits) (metis jmp.distinct(1))

lemma compare_names_for_qsort_returns:
  "\<forall>a b. \<exists>r. compare_collated e a b = Ret r \<Longrightarrow> \<exists>r. compare_names_for_qsort e w a b = Ret r"
  by (simp add: compare_names_for_qsort_def split: jmp.splits) (metis jmp.distinct(1))

lemma insert_name_returns:
  assumes "\<forall>a b. \<exists>r. compare_collated e a b = Ret r"
  shows "\<exists>zs. insert_name e w x ys = Ret zs"
proof (induction ys)
  case Nil
  then show ?case by simp
next
  case (Cons y ys)
  from compare_names_for_qsort_returns [OF assms, of w x y]
  obtain c where "compare_names_for_qsort e w x y = Ret c" by blast
  with Cons show ?case by auto
qed

lemma qsort_returns:
  assumes "\<forall>a b. \<exists>r. compare_collated e a b = Ret r"
  shows "\<exists>ys. qsort e w xs = Ret ys"
proof (induction xs)
  case Nil
  then show ?case by simp
next
  case (Cons x xs)
  then obtain ys where "qsort e w xs = Ret ys" by blast
  with insert_name_returns [OF assms, of w x ys] show ?case by auto
qed

lemma sort_names_returns:
  assumes "\<forall>a b. \<exists>r. compare_collated e a b = Ret r" and "length ns = k \<or> k \<le> 1"
  shows "\<exists>s. sort_names e w k ns = Inr (Ret s)"
proof (cases "length ns = k")
  case True
  from qsort_returns [OF assms(1), of w ns] obtain s where "qsort e w ns = Ret s" by blast
  with True show ?thesis by (simp add: sort_names_def)
next
  case False
  with assms(2) show ?thesis by (simp add: sort_names_def)
qed

lemma sort_both_returns:
  assumes "\<forall>a b. \<exists>r. compare_collated e a b = Ret r"
    and "length n0 = fst nn \<or> fst nn \<le> 1" and "length n1 = snd nn \<or> snd nn \<le> 1"
  shows "\<exists>s0 s1. sort_both e w nn n0 n1 = Inr (Ret (s0, s1))"
proof -
  from sort_names_returns [OF assms(1,2)]
  obtain s0 where "sort_names e w (fst nn) n0 = Inr (Ret s0)" by blast
  moreover from sort_names_returns [OF assms(1,3)]
  obtain s1 where "sort_names e w (snd nn) n1 = Inr (Ret s1)" by blast
  ultimately show ?thesis by (simp add: sort_both_def)
qed

lemma find_match_returns:
  assumes "\<forall>a b. \<exists>r. compare_collated e a b = Ret r"
  shows "\<exists>r. find_match e w g ps = Ret r"
proof (induction ps)
  case Nil
  then show ?case by simp
next
  case (Cons p ps)
  from compare_names_returns [OF assms, of w p g]
  obtain c where "compare_names e w p g = Ret c" by blast
  with Cons show ?case by (auto simp: Let_def split: option.splits)
qed

lemma next_pair_returns:
  assumes "\<forall>a b. \<exists>r. compare_collated e a b = Ret r"
  shows "\<exists>r. next_pair e w n0 n1 = Ret r"
proof (cases n0)
  case Nil
  then show ?thesis by (simp add: next_pair_def)
next
  case (Cons a as)
  note n0 = this
  show ?thesis
  proof (cases n1)
    case Nil
    with n0 show ?thesis by (simp add: next_pair_def)
  next
    case (Cons b bs)
    from compare_names_returns [OF assms, of w a b]
    obtain c where c: "compare_names e w a b = Ret c" by blast
    from find_match_returns [OF assms, of w b "tl n0"]
    obtain r0 where r0: "find_match e w b (tl n0) = Ret r0" by blast
    from find_match_returns [OF assms, of w a "tl n1"]
    obtain r1 where r1: "find_match e w a (tl n1) = Ret r1" by blast
    from n0 Cons c r0 r1 show ?thesis
      by (auto simp: next_pair_def prefer_match_def Let_def split: option.splits)
  qed
qed

lemma compare_dirs_returns:
  assumes "\<forall>a b. \<exists>r. compare_collated e a b = Ret r"
    and "\<forall>w c a b. \<exists>w' v. h w c a b = Inr (w', v)"
    and "ph = Sorting \<longrightarrow> (length n0 = fst nn \<or> fst nn \<le> 1) \<and> (length n1 = snd nn \<or> snd nn \<le> 1)"
  shows "\<exists>w' v cs. compare_dirs e h fr cmp nn ph w n0 n1 val calls = Inr (w', v, cs)"
  using assms
proof (induction e h fr cmp nn ph w n0 n1 val calls rule: compare_dirs.induct)
  case (1 e h fr cmp nn ph w n0 n1 val calls)
  note nf = "1.prems"(1) and tot = "1.prems"(2)
  show ?case
  proof (cases ph)
    case Sorting
    with "1.prems"(3) sort_both_returns [OF nf, of n0 nn n1 w]
    obtain s0 s1 where sb: "sort_both e w nn n0 n1 = Inr (Ret (s0, s1))" by blast
    from "1.IH"(1) [OF Sorting sb refl refl nf tot]
    obtain w' v cs where "compare_dirs e h fr cmp nn Merging w s0 s1 val calls = Inr (w', v, cs)"
      by auto
    with Sorting sb show ?thesis by (simp add: compare_dirs_sorting)
  next
    case Merging
    show ?thesis
    proof (cases "n0 = [] \<and> n1 = []")
      case True
      with Merging show ?thesis by (simp add: compare_dirs_merging)
    next
      case False
      from next_pair_returns [OF nf, of w n0 n1]
      obtain nameorder m0 m1 where np: "next_pair e w n0 n1 = Ret (nameorder, m0, m1)"
        by (metis prod_cases3)
      obtain a0 r0 where t0: "take_name (0 < nameorder) m0 = (a0, r0)"
        by (cases "take_name (0 < nameorder) m0")
      obtain a1 r1 where t1: "take_name (nameorder < 0) m1 = (a1, r1)"
        by (cases "take_name (nameorder < 0) m1")
      from tot obtain w1 v1 where hr: "h w cmp a0 a1 = Inr (w1, v1)" by blast
      from "1.IH"(3) [OF Merging False np refl refl t0 [symmetric] t1 [symmetric] hr refl nf tot]
      obtain w' v cs
        where "compare_dirs e h fr cmp nn Merging w1 r0 r1 (if val < v1 then v1 else val)
                 (calls @ [(a0, a1)]) = Inr (w', v, cs)"
        by auto
      with Merging False np t0 t1 hr show ?thesis by (simp add: compare_dirs_merging)
    qed
  qed
qed




lemma landing_world:
  "landing fr w en a b = Inr w1
   \<Longrightarrow> w1 = w\<lparr>trace := trace w @ [Error_compare en a b], locale_specific_sorting := False\<rparr>"
  by (auto simp: landing_def Let_def split: if_splits)

text \<open>
  With a handler that leaves the state alone, a run that returns has changed the state
  in one way at most: collation was on, one comparison failed, its diagnostic was
  printed and collation is off.
\<close>

lemma compare_dirs_leaf_world:
  assumes "compare_dirs e h fr cmp nn ph w n0 n1 val calls = Inr (w', v, cs)"
    and "h = leaf_handler f"
  shows "w' = w
         \<or> (\<exists>en a b. locale_specific_sorting w
               \<and> w' = w\<lparr>trace := trace w @ [Error_compare en a b],
                         locale_specific_sorting := False\<rparr>)"
  using assms
proof (induction e h fr cmp nn ph w n0 n1 val calls rule: compare_dirs.induct)
  case (1 e h fr cmp nn ph w n0 n1 val calls)
  note run = "1.prems"(1) and leaf = "1.prems"(2)
  have after_jump: "?case"
    if on: "locale_specific_sorting w" and land: "landing fr w en a b = Inr w1"
      and rest: "w' = w1 \<or> (\<exists>en a b. locale_specific_sorting w1
               \<and> w' = w1\<lparr>trace := trace w1 @ [Error_compare en a b],
                         locale_specific_sorting := False\<rparr>)"
    for en a b w1
  proof -
    from landing_world [OF land]
    have w1: "w1 = w\<lparr>trace := trace w @ [Error_compare en a b], locale_specific_sorting := False\<rparr>" .
    then have "\<not> locale_specific_sorting w1" by simp
    with rest have "w' = w1" by blast
    with w1 on show ?thesis by blast
  qed
  show ?case
  proof (cases ph)
    case Sorting
    show ?thesis
    proof (cases "sort_both e w nn n0 n1")
      case (Inl err)
      with run Sorting show ?thesis by (simp add: compare_dirs_sorting)
    next
      case (Inr b)
      show ?thesis
      proof (cases b)
        case (Ret x1)
        obtain s0 s1 where x1: "x1 = (s0, s1)" by (cases x1)
        from Inr Ret x1 have sb: "sort_both e w nn n0 n1 = Inr (Ret (s0, s1))" by simp
        from run Sorting sb
        have "compare_dirs e h fr cmp nn Merging w s0 s1 val calls = Inr (w', v, cs)"
          by (simp add: compare_dirs_sorting)
        from "1.IH"(1) [OF Sorting sb refl refl this leaf] show ?thesis .
      next
        case (Longjmp en a b')
        with Inr have sb: "sort_both e w nn n0 n1 = Inr (Longjmp en a b')" by simp
        show ?thesis
        proof (cases "landing fr w en a b'")
          case (Inl err)
          with run Sorting sb show ?thesis by (simp add: compare_dirs_sorting)
        next
          case (Inr w1)
          with run Sorting sb
          have "compare_dirs e h fr cmp nn Sorting w1 n0 n1 val calls = Inr (w', v, cs)"
            by (simp add: compare_dirs_sorting)
          from after_jump [OF sort_both_jump [OF sb] Inr "1.IH"(2) [OF Sorting sb refl Inr this leaf]]
          show ?thesis .
        qed
      qed
    qed
  next
    case Merging
    show ?thesis
    proof (cases "n0 = [] \<and> n1 = []")
      case True
      with run Merging show ?thesis by (simp add: compare_dirs_merging)
    next
      case False
      show ?thesis
      proof (cases "next_pair e w n0 n1")
        case (Longjmp en a b')
        show ?thesis
        proof (cases "landing fr w en a b'")
          case (Inl err)
          with run Merging False Longjmp show ?thesis by (simp add: compare_dirs_merging)
        next
          case (Inr w1)
          with run Merging False Longjmp
          have "compare_dirs e h fr cmp nn Sorting w1 n0 n1 val calls = Inr (w', v, cs)"
            by (simp add: compare_dirs_merging)
          from after_jump [OF next_pair_jump [OF Longjmp] Inr
                             "1.IH"(4) [OF Merging False Longjmp Inr this leaf]]
          show ?thesis .
        qed
      next
        case (Ret x1)
        obtain nameorder m0 m1 where x1: "x1 = (nameorder, m0, m1)" by (cases x1)
        with Ret have np: "next_pair e w n0 n1 = Ret (nameorder, m0, m1)" by simp
        obtain a0 r0 where t0: "take_name (0 < nameorder) m0 = (a0, r0)"
          by (cases "take_name (0 < nameorder) m0")
        obtain a1 r1 where t1: "take_name (nameorder < 0) m1 = (a1, r1)"
          by (cases "take_name (nameorder < 0) m1")
        from leaf have hr: "h w cmp a0 a1 = Inr (w, f a0 a1)" by (simp add: leaf_handler_def)
        with run Merging False np t0 t1
        have "compare_dirs e h fr cmp nn Merging w r0 r1 (if val < f a0 a1 then f a0 a1 else val)
                (calls @ [(a0, a1)]) = Inr (w', v, cs)"
          by (simp add: compare_dirs_merging)
        from "1.IH"(3) [OF Merging False np refl refl t0 [symmetric] t1 [symmetric] hr refl
                           this leaf]
        show ?thesis .
      qed
    qed
  qed
qed

text \<open>The value of such a run is the running maximum over the values of the handler.\<close>

lemma compare_dirs_leaf_value:
  assumes "compare_dirs e h fr cmp nn ph w n0 n1 val calls = Inr (w', v, cs)"
    and "h = leaf_handler f"
  shows "\<exists>new. cs = calls @ new \<and> v = fold max (map (\<lambda>(a, b). f a b) new) val"
  using assms
proof (induction e h fr cmp nn ph w n0 n1 val calls rule: compare_dirs.induct)
  case (1 e h fr cmp nn ph w n0 n1 val calls)
  note run = "1.prems"(1) and leaf = "1.prems"(2)
  show ?case
  proof (cases ph)
    case Sorting
    show ?thesis
    proof (cases "sort_both e w nn n0 n1")
      case (Inl err)
      with run Sorting show ?thesis by (simp add: compare_dirs_sorting)
    next
      case (Inr b)
      show ?thesis
      proof (cases b)
        case (Ret x1)
        obtain s0 s1 where x1: "x1 = (s0, s1)" by (cases x1)
        from Inr Ret x1 have sb: "sort_both e w nn n0 n1 = Inr (Ret (s0, s1))" by simp
        from run Sorting sb
        have "compare_dirs e h fr cmp nn Merging w s0 s1 val calls = Inr (w', v, cs)"
          by (simp add: compare_dirs_sorting)
        from "1.IH"(1) [OF Sorting sb refl refl this leaf] show ?thesis .
      next
        case (Longjmp en a b')
        with Inr have sb: "sort_both e w nn n0 n1 = Inr (Longjmp en a b')" by simp
        show ?thesis
        proof (cases "landing fr w en a b'")
          case (Inl err)
          with run Sorting sb show ?thesis by (simp add: compare_dirs_sorting)
        next
          case (Inr w1)
          with run Sorting sb
          have "compare_dirs e h fr cmp nn Sorting w1 n0 n1 val calls = Inr (w', v, cs)"
            by (simp add: compare_dirs_sorting)
          from "1.IH"(2) [OF Sorting sb refl Inr this leaf] show ?thesis .
        qed
      qed
    qed
  next
    case Merging
    show ?thesis
    proof (cases "n0 = [] \<and> n1 = []")
      case True
      with run Merging show ?thesis by (simp add: compare_dirs_merging)
    next
      case False
      show ?thesis
      proof (cases "next_pair e w n0 n1")
        case (Longjmp en a b')
        show ?thesis
        proof (cases "landing fr w en a b'")
          case (Inl err)
          with run Merging False Longjmp show ?thesis by (simp add: compare_dirs_merging)
        next
          case (Inr w1)
          with run Merging False Longjmp
          have "compare_dirs e h fr cmp nn Sorting w1 n0 n1 val calls = Inr (w', v, cs)"
            by (simp add: compare_dirs_merging)
          from "1.IH"(4) [OF Merging False Longjmp Inr this leaf] show ?thesis .
        qed
      next
        case (Ret x1)
        obtain nameorder m0 m1 where x1: "x1 = (nameorder, m0, m1)" by (cases x1)
        with Ret have np: "next_pair e w n0 n1 = Ret (nameorder, m0, m1)" by simp
        obtain a0 r0 where t0: "take_name (0 < nameorder) m0 = (a0, r0)"
          by (cases "take_name (0 < nameorder) m0")
        obtain a1 r1 where t1: "take_name (nameorder < 0) m1 = (a1, r1)"
          by (cases "take_name (nameorder < 0) m1")
        from leaf have hr: "h w cmp a0 a1 = Inr (w, f a0 a1)" by (simp add: leaf_handler_def)
        with run Merging False np t0 t1
        have "compare_dirs e h fr cmp nn Merging w r0 r1 (if val < f a0 a1 then f a0 a1 else val)
                (calls @ [(a0, a1)]) = Inr (w', v, cs)"
          by (simp add: compare_dirs_merging)
        from "1.IH"(3) [OF Merging False np refl refl t0 [symmetric] t1 [symmetric] hr refl
                           this leaf]
        obtain new where new: "cs = (calls @ [(a0, a1)]) @ new"
          "v = fold max (map (\<lambda>(a, b). f a b) new) (if val < f a0 a1 then f a0 a1 else val)"
          by blast
        have "(if val < f a0 a1 then f a0 a1 else val) = max (f a0 a1) val" by (simp add: max_def)
        with new have "cs = calls @ (a0, a1) # new"
          "v = fold max (map (\<lambda>(a, b). f a b) ((a0, a1) # new)) val"
          by simp_all
        then show ?thesis by blast
      qed
    qed
  qed
qed

lemma unpack_names_length [simp]: "length (unpack_names buf n) = n"
  by (induction n arbitrary: buf) simp_all



text \<open>
  \<open>vs\<close> lists, pair by pair, values that the handler returns for the pairs of \<open>calls\<close>
  under the comparison \<open>cmp\<close>, each in some state.
\<close>

definition handler_values :: "handler \<Rightarrow> comparison \<Rightarrow> pair list \<Rightarrow> int list \<Rightarrow> bool" where
  "handler_values h cmp calls vs =
     list_all2 (\<lambda>pr x. \<exists>u u'. h u cmp (fst pr) (snd pr) = Inr (u', x)) calls vs"

lemma handler_values_Nil [simp]: "handler_values h cmp [] vs = (vs = [])"
  by (simp add: handler_values_def)






subsection \<open>Comparing two directories\<close>

text \<open>The condition of lines 228 and 229, under which \<open>diff_dirs\<close> reports a loop.\<close>

definition loop_gate :: "env \<Rightarrow> comparison \<Rightarrow> bool" where
  "loop_gate e cmp =
     ((desc (file_at cmp 0) = NONEXISTENT e \<or> dir_loop e cmp 0)
      \<and> (desc (file_at cmp 1) = NONEXISTENT e \<or> dir_loop e cmp 1))"

lemma diff_dirs_gate:
  assumes "loop_gate e (Comparison f0 f1 p)"
  shows "diff_dirs e h w (Comparison f0 f1 p) =
           Inr (w\<lparr>trace := trace w @
                     [Error_loop (name (if desc f0 = NONEXISTENT e then f1 else f0))]\<rparr>,
                Comparison f0 f1 p, EXIT_TROUBLE, [])"
  using assms by (simp add: loop_gate_def file_at_def)

lemma diff_dirs_reads:
  assumes "\<not> loop_gate e (Comparison f0 f1 p)"
    and "startfile = (if is_noparent p then starting_file e else None)"
    and "dir_read e w (desc (file_at p 0)) f0 uninitialized_dirdata startfile False
         = Ret (w1, g0, dirdata0, ok0)"
    and "dir_read e (perror_if (\<not> ok0) w1 (name g0)) (desc (file_at p 1)) f1
           uninitialized_dirdata startfile False
         = Ret (w2, g1, dirdata1, ok1)"
  shows "diff_dirs e h w (Comparison f0 f1 p) =
           (if ok0 \<and> ok1
            then (case compare_dirs e h (Suc (activations w2)) (Comparison g0 g1 p)
                         (nnames dirdata0, nnames dirdata1) Sorting
                         (w2\<lparr>locale_specific_sorting := True,
                             failed_locale_specific_sorting := Suc (activations w2),
                             activations := Suc (activations w2)\<rparr>)
                         (names_of dirdata0) (names_of dirdata1) EXIT_SUCCESS [] of
                    Inl err \<Rightarrow> Inl err
                  | Inr (w4, v, calls) \<Rightarrow>
                      Inr (free_dirdata (free_dirdata w4 dirdata0) dirdata1,
                           Comparison g0 g1 p, v, calls))
            else Inr (free_dirdata (free_dirdata (perror_if (\<not> ok1) w2 (name g1)) dirdata0)
                        dirdata1,
                      Comparison g0 g1 p, EXIT_TROUBLE, []))"
proof -
  let ?d0 = "dir_read e w (desc (file_at p 0)) f0 uninitialized_dirdata
               (if is_noparent p then starting_file e else None) False"
  from assms(1) have gate: "\<not> ((desc f0 = NONEXISTENT e \<or> dir_loop e (Comparison f0 f1 p) 0)
         \<and> (desc f1 = NONEXISTENT e \<or> dir_loop e (Comparison f0 f1 p) 1))"
    by (simp add: loop_gate_def file_at_def)
  have ts: "EXIT_TROUBLE \<noteq> EXIT_SUCCESS" by (simp add: EXIT_TROUBLE_def EXIT_SUCCESS_def)
  note r0 = assms(3) [unfolded assms(2)] and r1 = assms(4) [unfolded assms(2)]
  have "diff_dirs e h w (Comparison f0 f1 p) =
          (let startfile = (if is_noparent p then starting_file e else None) in
         case dir_read e w (desc (file_at p 0)) f0 uninitialized_dirdata startfile False of
           Longjmp en a b \<Rightarrow> Inl Longjmp_before_setjmp
         | Ret (w1, g0, dirdata0, ok0) \<Rightarrow>
             (case dir_read e (perror_if (\<not> ok0) w1 (name g0)) (desc (file_at p 1)) f1
                     uninitialized_dirdata startfile False of
                Longjmp en a b \<Rightarrow> Inl Longjmp_before_setjmp
              | Ret (w2, g1, dirdata1, ok1) \<Rightarrow>
                  (let w3 = perror_if (\<not> ok1) w2 (name g1);
                       cmp = Comparison g0 g1 p;
                       val = (if ok0 \<and> ok1 then EXIT_SUCCESS else EXIT_TROUBLE)
                   in case (if val = EXIT_SUCCESS
                            then (let fr = Suc (activations w3) in
                                  compare_dirs e h fr cmp
                                    (nnames dirdata0, nnames dirdata1) Sorting
                                    (w3\<lparr>locale_specific_sorting := True,
                                        failed_locale_specific_sorting := fr,
                                        activations := fr\<rparr>)
                                    (names_of dirdata0) (names_of dirdata1) val [])
                            else Inr (w3, val, [])) of
                        Inl err \<Rightarrow> Inl err
                      | Inr (w4, v, calls) \<Rightarrow>
                          Inr (free_dirdata (free_dirdata w4 dirdata0) dirdata1,
                               cmp, v, calls))))"
    by (subst diff_dirs.simps) (simp only: gate if_False)
  also have "\<dots> = (if ok0 \<and> ok1
            then (case compare_dirs e h (Suc (activations w2)) (Comparison g0 g1 p)
                         (nnames dirdata0, nnames dirdata1) Sorting
                         (w2\<lparr>locale_specific_sorting := True,
                             failed_locale_specific_sorting := Suc (activations w2),
                             activations := Suc (activations w2)\<rparr>)
                         (names_of dirdata0) (names_of dirdata1) EXIT_SUCCESS [] of
                    Inl err \<Rightarrow> Inl err
                  | Inr (w4, v, calls) \<Rightarrow>
                      Inr (free_dirdata (free_dirdata w4 dirdata0) dirdata1,
                           Comparison g0 g1 p, v, calls))
            else Inr (free_dirdata (free_dirdata (perror_if (\<not> ok1) w2 (name g1)) dirdata0)
                        dirdata1,
                      Comparison g0 g1 p, EXIT_TROUBLE, []))"
    unfolding Let_def r0 jmp.case prod.case r1
    by (cases "ok0 \<and> ok1") (auto simp: perror_if_def ts)
  finally show ?thesis .
qed





lemma dir_read_trace:
  assumes "dir_read e w parentdirfd dir dirdata startfile only = Ret (w', dir', dirdata', ok)"
  shows "\<exists>evs. trace w' = trace w @ evs \<and> (\<forall>ev\<in>set evs. is_syscall ev) \<and> name dir' = name dir"
proof -
  from dir_read_world [OF assms] obtain evs
    where w': "w' = w\<lparr>trace := trace w @ evs,
                       allocated := allocated w + (if names dirdata' = None then 0 else 1)
                                                + (if data dirdata' = None then 0 else 1)\<rparr>"
      and rest: "\<forall>ev\<in>set evs. is_syscall ev" "name dir' = name dir"
    by blast
  from w' have "trace w' = trace w @ evs" by simp
  with rest show ?thesis by blast
qed


lemma free_dirdata_trace [simp]: "trace (free_dirdata w dirdata) = trace w"
  by (simp add: free_dirdata_def)

text \<open>What the caller sees of a run of \<open>diff_dirs\<close>: its value and the pairs handed over.\<close>

definition value_and_calls ::
  "error + world \<times> comparison \<times> int \<times> pair list \<Rightarrow> (int \<times> pair list) option" where
  "value_and_calls r = (case r of Inl err \<Rightarrow> None | Inr (w, c, v, calls) \<Rightarrow> Some (v, calls))"

text \<open>The diagnostics a run of \<open>diff_dirs\<close> has printed.\<close>

definition diagnostics_of :: "error + world \<times> comparison \<times> int \<times> pair list \<Rightarrow> event list" where
  "diagnostics_of r =
     (case r of Inl err \<Rightarrow> [] | Inr (w, c, v, calls) \<Rightarrow> filter (\<lambda>ev. \<not> is_syscall ev) (trace w))"





lemma diff_dirs_returned:
  assumes "\<not> loop_gate e (Comparison f0 f1 p)"
    and "diff_dirs e h w (Comparison f0 f1 p) = Inr r"
  shows "\<exists>w1 g0 dirdata0 ok0 w2 g1 dirdata1 ok1.
           dir_read e w (desc (file_at p 0)) f0 uninitialized_dirdata
             (if is_noparent p then starting_file e else None) False
           = Ret (w1, g0, dirdata0, ok0)
           \<and> dir_read e (perror_if (\<not> ok0) w1 (name g0)) (desc (file_at p 1)) f1
               uninitialized_dirdata (if is_noparent p then starting_file e else None) False
             = Ret (w2, g1, dirdata1, ok1)"
proof -
  let ?sf = "if is_noparent p then starting_file e else None"
  from assms(1) have gate: "\<not> ((desc f0 = NONEXISTENT e \<or> dir_loop e (Comparison f0 f1 p) 0)
         \<and> (desc f1 = NONEXISTENT e \<or> dir_loop e (Comparison f0 f1 p) 1))"
    by (simp add: loop_gate_def file_at_def)
  show ?thesis
  proof (cases "dir_read e w (desc (file_at p 0)) f0 uninitialized_dirdata ?sf False")
    case (Longjmp en a b)
    have "diff_dirs e h w (Comparison f0 f1 p) = Inl Longjmp_before_setjmp"
      by (subst diff_dirs.simps) (simp only: gate if_False Let_def Longjmp jmp.case)
    with assms(2) show ?thesis by simp
  next
    case (Ret x)
    obtain w1 g0 dirdata0 ok0 where x: "x = (w1, g0, dirdata0, ok0)" by (cases x)
    note r0 = Ret [unfolded x]
    show ?thesis
    proof (cases "dir_read e (perror_if (\<not> ok0) w1 (name g0)) (desc (file_at p 1)) f1
                    uninitialized_dirdata ?sf False")
      case (Longjmp en a b)
      have "diff_dirs e h w (Comparison f0 f1 p) = Inl Longjmp_before_setjmp"
        by (subst diff_dirs.simps)
           (simp only: gate if_False Let_def r0 jmp.case prod.case Longjmp)
      with assms(2) show ?thesis by simp
    next
      case (Ret y)
      obtain w2 g1 dirdata1 ok1 where y: "y = (w2, g1, dirdata1, ok1)" by (cases y)
      from r0 Ret [unfolded y] show ?thesis by blast
    qed
  qed
qed

text \<open>With a handler that leaves the state alone, no run of \<open>diff_dirs\<close> that reads the
  directories reports a loop.\<close>

lemma diff_dirs_no_loop_report:
  assumes "\<not> loop_gate e (Comparison f0 f1 p)"
    and "diff_dirs e (leaf_handler f) w (Comparison f0 f1 p) = Inr (w', c, v, calls)"
  shows "\<exists>evs. trace w' = trace w @ evs \<and> (\<forall>nm. Error_loop nm \<notin> set evs)"
proof -
  let ?sf = "if is_noparent p then starting_file e else None"
  from diff_dirs_returned [OF assms] obtain w1 g0 dirdata0 ok0 w2 g1 dirdata1 ok1
    where r0: "dir_read e w (desc (file_at p 0)) f0 uninitialized_dirdata ?sf False
               = Ret (w1, g0, dirdata0, ok0)"
      and r1: "dir_read e (perror_if (\<not> ok0) w1 (name g0)) (desc (file_at p 1)) f1
                 uninitialized_dirdata ?sf False
               = Ret (w2, g1, dirdata1, ok1)"
    by blast
  from dir_read_trace [OF r0] obtain evs0
    where t1: "trace w1 = trace w @ evs0" and s0: "\<forall>ev\<in>set evs0. is_syscall ev" by blast
  from dir_read_trace [OF r1] obtain evs1
    where t2: "trace w2 = trace (perror_if (\<not> ok0) w1 (name g0)) @ evs1"
      and s1: "\<forall>ev\<in>set evs1. is_syscall ev" by blast
  from s0 have l0: "\<And>nm. Error_loop nm \<notin> set evs0" by auto
  from s1 have l1: "\<And>nm. Error_loop nm \<notin> set evs1" by auto
  let ?pre = "evs0 @ (if ok0 then [] else [Perror_with_name (name g0)]) @ evs1"
  from t1 t2 have t2': "trace w2 = trace w @ ?pre" by (simp add: perror_if_def)
  from l0 l1 have lpre: "\<And>nm. Error_loop nm \<notin> set ?pre" by simp
  note unfold = diff_dirs_reads [OF assms(1) refl r0 r1, of "leaf_handler f"]
  show ?thesis
  proof (cases "ok0 \<and> ok1")
    case False
    with unfold assms(2)
    have "trace w' = trace (perror_if (\<not> ok1) w2 (name g1))" by auto
    with t2' have "trace w' = trace w @ ?pre @ (if ok1 then [] else [Perror_with_name (name g1)])"
      by (simp add: perror_if_def)
    moreover from lpre
    have "\<And>nm. Error_loop nm \<notin> set (?pre @ (if ok1 then [] else [Perror_with_name (name g1)]))"
      by simp
    ultimately show ?thesis by blast
  next
    case True
    let ?w3 = "w2\<lparr>locale_specific_sorting := True,
                   failed_locale_specific_sorting := Suc (activations w2),
                   activations := Suc (activations w2)\<rparr>"
    from unfold True assms(2) obtain w4
      where run: "compare_dirs e (leaf_handler f) (Suc (activations w2)) (Comparison g0 g1 p)
                    (nnames dirdata0, nnames dirdata1) Sorting ?w3
                    (names_of dirdata0) (names_of dirdata1) EXIT_SUCCESS [] = Inr (w4, v, calls)"
        and w': "w' = free_dirdata (free_dirdata w4 dirdata0) dirdata1"
      by (auto split: sum.splits)
    from compare_dirs_leaf_world [OF run refl]
    have "trace w4 = trace w2 \<or> (\<exists>en a b. trace w4 = trace w2 @ [Error_compare en a b])"
      by auto
    then show ?thesis
    proof
      assume "trace w4 = trace w2"
      with w' t2' have "trace w' = trace w @ ?pre" by simp
      with lpre show ?thesis by blast
    next
      assume "\<exists>en a b. trace w4 = trace w2 @ [Error_compare en a b]"
      then obtain en a b where "trace w4 = trace w2 @ [Error_compare en a b]" by blast
      with w' t2' have "trace w' = trace w @ ?pre @ [Error_compare en a b]" by simp
      moreover from lpre have "\<And>nm. Error_loop nm \<notin> set (?pre @ [Error_compare en a b])"
        by simp
      ultimately show ?thesis by blast
    qed
  qed
qed

text \<open>A run that read both directories has handed each of their names to the handler.\<close>

lemma diff_dirs_delivers:
  assumes "\<not> loop_gate e (Comparison f0 f1 p)"
    and "startfile = (if is_noparent p then starting_file e else None)"
    and "dir_read e w (desc (file_at p 0)) f0 uninitialized_dirdata startfile False
         = Ret (w1, g0, dirdata0, True)"
    and "dir_read e w1 (desc (file_at p 1)) f1 uninitialized_dirdata startfile False
         = Ret (w2, g1, dirdata1, True)"
    and "\<forall>x\<in>set (names_of dirdata0) \<union> set (names_of dirdata1). cstring x"
    and "diff_dirs e h w (Comparison f0 f1 p) = Inr (w', c, v, calls)"
  shows "mset (left_names calls) = mset (names_of dirdata0)
         \<and> mset (right_names calls) = mset (names_of dirdata1)"
proof -
  have p: "perror_if (\<not> True) w1 (name g0) = w1" by (simp add: perror_if_def)
  from assms(4) have r1: "dir_read e (perror_if (\<not> True) w1 (name g0)) (desc (file_at p 1)) f1
                            uninitialized_dirdata startfile False = Ret (w2, g1, dirdata1, True)"
    by (simp only: p)
  from diff_dirs_reads [OF assms(1,2,3) r1, of h] assms(6) obtain w4
    where "compare_dirs e h (Suc (activations w2)) (Comparison g0 g1 p)
             (nnames dirdata0, nnames dirdata1) Sorting
             (w2\<lparr>locale_specific_sorting := True,
                 failed_locale_specific_sorting := Suc (activations w2),
                 activations := Suc (activations w2)\<rparr>)
             (names_of dirdata0) (names_of dirdata1) EXIT_SUCCESS [] = Inr (w4, v, calls)"
    by (auto split: sum.splits)
  from compare_dirs_delivers [OF this] assms(5) show ?thesis by auto
qed

text \<open>
  C2 (as amended). \<open>diff_dirs\<close> prints the recursive-loop diagnostic and returns
  \<open>EXIT_TROUBLE\<close>, without a system call or a call of the handler, exactly when each side
  is either known not to exist or a revisit of an ancestor. Otherwise it reports no
  loop (with a handler that leaves the state alone, the events it adds hold no loop
  diagnostic), and the comparison proceeds on both sides alike: when both directories
  are read, every name of either side is handed to the handler, whether or not that
  side revisits an ancestor.
\<close>

theorem diff_dirs_loop_gate:
  assumes "gate = ((desc f0 = NONEXISTENT e \<or> dir_loop e (Comparison f0 f1 p) 0)
                   \<and> (desc f1 = NONEXISTENT e \<or> dir_loop e (Comparison f0 f1 p) 1))"
  shows "(gate \<longrightarrow> diff_dirs e h w (Comparison f0 f1 p) =
                    Inr (w\<lparr>trace := trace w @
                              [Error_loop (name (if desc f0 = NONEXISTENT e then f1 else f0))]\<rparr>,
                         Comparison f0 f1 p, EXIT_TROUBLE, []))
         \<and> (\<not> gate
             \<longrightarrow> (\<forall>w' c v calls.
                    diff_dirs e (leaf_handler f) w (Comparison f0 f1 p) = Inr (w', c, v, calls)
                    \<longrightarrow> (\<exists>evs. trace w' = trace w @ evs \<and> (\<forall>nm. Error_loop nm \<notin> set evs))))
         \<and> (\<not> gate
             \<and> startfile = (if is_noparent p then starting_file e else None)
             \<and> dir_read e w (desc (file_at p 0)) f0 uninitialized_dirdata startfile False
                 = Ret (w1, g0, dirdata0, True)
             \<and> dir_read e w1 (desc (file_at p 1)) f1 uninitialized_dirdata startfile False
                 = Ret (w2, g1, dirdata1, True)
             \<and> (\<forall>x\<in>set (names_of dirdata0) \<union> set (names_of dirdata1). cstring x)
             \<and> diff_dirs e h w (Comparison f0 f1 p) = Inr (w'', c'', v'', calls'')
             \<longrightarrow> mset (left_names calls'') = mset (names_of dirdata0)
                 \<and> mset (right_names calls'') = mset (names_of dirdata1))"
proof -
  from assms have g: "gate = loop_gate e (Comparison f0 f1 p)"
    by (simp add: loop_gate_def file_at_def)
  show ?thesis
    unfolding g
    using diff_dirs_gate [of e f0 f1 p h w]
      diff_dirs_no_loop_report [of e f0 f1 p f w]
      diff_dirs_delivers [of e f0 f1 p startfile w w1 g0 dirdata0 w2 g1 dirdata1 h w'' c'' v'' calls'']
    by blast
qed


theorem diff_dirs_loop_gate_witness:
  "diff_dirs loop_env (leaf_handler (\<lambda>a b. 0)) w_start half_absent_cmp
     = Inr (w_start\<lparr>trace := [Error_loop ''r/s'']\<rparr>, half_absent_cmp, EXIT_TROUBLE, [])
   \<and> (\<exists>w' c v calls evs.
        diff_dirs loop_env (leaf_handler (\<lambda>a b. 0)) w_start half_loop_cmp = Inr (w', c, v, calls)
        \<and> trace w' = trace w_start @ evs \<and> (\<forall>nm. Error_loop nm \<notin> set evs)
        \<and> mset (left_names calls) = mset [''x'']
        \<and> mset (right_names calls) = mset [''s''])"
proof -
  let ?h = "leaf_handler (\<lambda>a b. 0)"
  let ?l = "unopened_dir ''l/s'' 12" and ?r = "unopened_dir ''r/s'' 11"
  let ?n = "nonexistent_dir ''l/s''"
  have first: "diff_dirs loop_env ?h w_start half_absent_cmp
     = Inr (w_start\<lparr>trace := [Error_loop ''r/s'']\<rparr>, half_absent_cmp, EXIT_TROUBLE, [])"
  proof -
    have g: "True = ((desc ?n = NONEXISTENT loop_env \<or> dir_loop loop_env (Comparison ?n ?r parent_cmp) 0)
                   \<and> (desc ?r = NONEXISTENT loop_env \<or> dir_loop loop_env (Comparison ?n ?r parent_cmp) 1))"
      by code_simp
    have nm: "name (if desc ?n = NONEXISTENT loop_env then ?r else ?n) = ''r/s''"
      by code_simp
    from diff_dirs_loop_gate [OF g, of ?h w_start] nm show ?thesis
      by (simp add: half_absent_cmp_def w_start_def)
  qed
  have second: "\<exists>w' c v calls evs.
        diff_dirs loop_env ?h w_start half_loop_cmp = Inr (w', c, v, calls)
        \<and> trace w' = trace w_start @ evs \<and> (\<forall>nm. Error_loop nm \<notin> set evs)
        \<and> mset (left_names calls) = mset [''x'']
        \<and> mset (right_names calls) = mset [''s'']"
  proof -
    let ?w1 = "w_start\<lparr>trace := [Sys_openat 3 ''l/s'' False, Sys_fdopendir 5,
                                   Sys_readdir, Sys_readdir],
                         allocated := 2\<rparr>"
    let ?w2 = "w_start\<lparr>trace := [Sys_openat 3 ''l/s'' False, Sys_fdopendir 5,
                                   Sys_readdir, Sys_readdir,
                                   Sys_openat 4 ''r/s'' False, Sys_fdopendir 6,
                                   Sys_readdir, Sys_readdir],
                         allocated := 4\<rparr>"
    let ?g0 = "?l\<lparr>desc := 5, dirstream := Some \<lparr>entries = [''x''], end_errno = 0\<rparr>\<rparr>"
    let ?g1 = "?r\<lparr>desc := 6, dirstream := Some \<lparr>entries = [''s''], end_errno = 0\<rparr>\<rparr>"
    let ?dd0 = "\<lparr>nnames = 1, names = Some [''x''], data = Some (''x'' @ [NUL])\<rparr>"
    let ?dd1 = "\<lparr>nnames = 1, names = Some [''s''], data = Some (''s'' @ [NUL])\<rparr>"
    have g: "False = ((desc ?l = NONEXISTENT loop_env \<or> dir_loop loop_env (Comparison ?l ?r parent_cmp) 0)
                   \<and> (desc ?r = NONEXISTENT loop_env \<or> dir_loop loop_env (Comparison ?l ?r parent_cmp) 1))"
      by code_simp
    have sf: "None = (if is_noparent parent_cmp then starting_file loop_env else None)"
      by code_simp
    have r0: "dir_read loop_env w_start (desc (file_at parent_cmp 0)) ?l uninitialized_dirdata
                None False = Ret (?w1, ?g0, ?dd0, True)"
      by code_simp
    have r1: "dir_read loop_env ?w1 (desc (file_at parent_cmp 1)) ?r uninitialized_dirdata
                None False = Ret (?w2, ?g1, ?dd1, True)"
      by code_simp
    have cs: "\<forall>x\<in>set (names_of ?dd0) \<union> set (names_of ?dd1). cstring x"
      by (simp add: names_of_def cstring_def NUL_def)
    have "value_and_calls (diff_dirs loop_env ?h w_start half_loop_cmp)
          = Some (0, [(None, Some ''s''), (Some ''x'', None)])"
      by code_simp
    then obtain w' c v calls
      where run: "diff_dirs loop_env ?h w_start (Comparison ?l ?r parent_cmp) = Inr (w', c, v, calls)"
      by (auto simp: value_and_calls_def half_loop_cmp_def split: sum.splits)
    note t = diff_dirs_loop_gate [OF g, of ?h w_start "\<lambda>a b. 0" None ?w1 ?g0 ?dd0 ?w2 ?g1 ?dd1
                                      w' c v calls]
    from t run obtain evs where "trace w' = trace w_start @ evs" "\<forall>nm. Error_loop nm \<notin> set evs"
      by blast
    moreover from t sf r0 r1 cs run
    have "mset (left_names calls) = mset [''x'']" "mset (right_names calls) = mset [''s'']"
      by (simp_all add: names_of_def)
    ultimately show ?thesis using run by (auto simp: half_loop_cmp_def)
  qed
  from first second show ?thesis by blast
qed

text \<open>
  The claim as it was written fails both ways. With \<open>l/s\<close> known not to exist and
  \<open>r/s\<close> a revisit, only one side loops, yet the loop is reported and the value is
  \<open>EXIT_TROUBLE\<close>. With \<open>l/s\<close> a directory of its own, the side that loops is not a dead
  end: it is read, and its name \<open>s\<close> is handed to the handler.
\<close>

theorem diff_dirs_loop_gate_counterexample:
  "\<not> dir_loop loop_env half_absent_cmp 0
   \<and> dir_loop loop_env half_absent_cmp 1
   \<and> diagnostics_of (diff_dirs loop_env (leaf_handler (\<lambda>a b. 0)) w_start half_absent_cmp)
       = [Error_loop ''r/s'']
   \<and> value_and_calls (diff_dirs loop_env (leaf_handler (\<lambda>a b. 0)) w_start half_absent_cmp)
       = Some (EXIT_TROUBLE, [])
   \<and> \<not> dir_loop loop_env half_loop_cmp 0
   \<and> dir_loop loop_env half_loop_cmp 1
   \<and> diagnostics_of (diff_dirs loop_env (leaf_handler (\<lambda>a b. 0)) w_start half_loop_cmp) = []
   \<and> value_and_calls (diff_dirs loop_env (leaf_handler (\<lambda>a b. 0)) w_start half_loop_cmp)
       = Some (EXIT_SUCCESS, [(None, Some ''s''), (Some ''x'', None)])"
  by code_simp


subsection \<open>The tie-break of the merge\<close>

text \<open>
  In a run of names that tie with \<open>g\<close> and are in increasing byte order, the scan of
  the tie-break stops at \<open>g\<close> itself when the run holds it.
\<close>

lemma find_match_sorted:
  assumes "g \<in> set (takeWhile (\<lambda>p. compare_names e w p g = Ret 0) ps)"
    and "sorted_wrt (\<lambda>x y. file_name_cmp x y < 0) (takeWhile (\<lambda>p. compare_names e w p g = Ret 0) ps)"
  shows "\<exists>k. find_match e w g ps = Ret (Some k) \<and> k < length ps \<and> ps ! k = g"
  using assms
proof (induction ps)
  case Nil
  then show ?case by simp
next
  case (Cons p qs)
  let ?P = "\<lambda>p. compare_names e w p g = Ret 0"
  from Cons.prems(1) have tie: "compare_names e w p g = Ret 0"
    by (cases "?P p") auto
  show ?case
  proof (cases "p = g")
    case True
    with tie show ?thesis by (simp add: file_name_cmp_def)
  next
    case False
    with Cons.prems(1) tie have mem: "g \<in> set (takeWhile ?P qs)" by simp
    from Cons.prems(2) tie have srt: "sorted_wrt (\<lambda>x y. file_name_cmp x y < 0) (takeWhile ?P qs)"
      and below: "\<forall>y\<in>set (takeWhile ?P qs). file_name_cmp p y < 0"
      by simp_all
    from below mem have less: "file_name_cmp p g < 0" by blast
    from Cons.IH [OF mem srt] obtain k
      where "find_match e w g qs = Ret (Some k)" "k < length qs" "qs ! k = g" by blast
    with tie less show ?thesis by (simp add: Let_def)
  qed
qed

text \<open>
  C4. With case-folding and collation on, in the C locale, the merge of the sorted
  vectors \<open>A\<close>, \<open>b\<close> and \<open>a\<close>, \<open>B\<close> hands the handler the pairs \<open>(A, a)\<close> and \<open>(b, B)\<close> and
  no other. In general, when the two current names tie under case-folding and differ
  in their bytes, and the run of names that follow the byte-wise lesser one and tie
  with the greater one is in increasing byte order (as sorting leaves it) and holds
  the greater name itself, the tie-break brings that name to the front: the pair that
  is delivered next is the exact match.
\<close>

theorem exact_match_preferred:
  "(\<exists>v. compare_dirs (c_env\<lparr>ignore_file_name_case := True\<rparr>) (leaf_handler f) fr cmp nn Merging
           w_collating [''A'', ''b''] [''a'', ''B''] val calls
         = Inr (w_collating, v, calls @ [(Some ''A'', Some ''a''), (Some ''b'', Some ''B'')]))
   \<and> (ignore_file_name_case e \<and> compare_names e w a b = Ret 0 \<and> file_name_cmp a b < 0
       \<and> b \<in> set (takeWhile (\<lambda>p. compare_names e w p b = Ret 0) as)
       \<and> sorted_wrt (\<lambda>x y. file_name_cmp x y < 0)
            (takeWhile (\<lambda>p. compare_names e w p b = Ret 0) as)
       \<longrightarrow> (\<exists>m0. next_pair e w (a # as) (b # bs) = Ret (0, b # m0, b # bs)))
   \<and> (ignore_file_name_case e \<and> compare_names e w a b = Ret 0 \<and> 0 < file_name_cmp a b
       \<and> a \<in> set (takeWhile (\<lambda>p. compare_names e w p a = Ret 0) bs)
       \<and> sorted_wrt (\<lambda>x y. file_name_cmp x y < 0)
            (takeWhile (\<lambda>p. compare_names e w p a = Ret 0) bs)
       \<longrightarrow> (\<exists>m1. next_pair e w (a # as) (b # bs) = Ret (0, a # as, a # m1)))"
proof (intro conjI impI)
  let ?e = "c_env\<lparr>ignore_file_name_case := True\<rparr>"
  have np1: "next_pair ?e w_collating [''A'', ''b''] [''a'', ''B'']
             = Ret (0, [''A'', ''b''], [''a'', ''B''])"
    by code_simp
  have np2: "next_pair ?e w_collating [''b''] [''B''] = Ret (0, [''b''], [''B''])"
    by code_simp
  show "\<exists>v. compare_dirs ?e (leaf_handler f) fr cmp nn Merging
           w_collating [''A'', ''b''] [''a'', ''B''] val calls
         = Inr (w_collating, v, calls @ [(Some ''A'', Some ''a''), (Some ''b'', Some ''B'')])"
    by (simp add: compare_dirs_merging np1 np2 take_name_def leaf_handler_def)
next
  assume h: "ignore_file_name_case e \<and> compare_names e w a b = Ret 0 \<and> file_name_cmp a b < 0
       \<and> b \<in> set (takeWhile (\<lambda>p. compare_names e w p b = Ret 0) as)
       \<and> sorted_wrt (\<lambda>x y. file_name_cmp x y < 0)
            (takeWhile (\<lambda>p. compare_names e w p b = Ret 0) as)"
  with find_match_sorted [of b e w as] obtain k where "find_match e w b as = Ret (Some k)"
    by blast
  with h show "\<exists>m0. next_pair e w (a # as) (b # bs) = Ret (0, b # m0, b # bs)"
    by (simp add: next_pair_def prefer_match_def Let_def)
next
  assume h: "ignore_file_name_case e \<and> compare_names e w a b = Ret 0 \<and> 0 < file_name_cmp a b
       \<and> a \<in> set (takeWhile (\<lambda>p. compare_names e w p a = Ret 0) bs)
       \<and> sorted_wrt (\<lambda>x y. file_name_cmp x y < 0)
            (takeWhile (\<lambda>p. compare_names e w p a = Ret 0) bs)"
  with find_match_sorted [of a e w bs] obtain k where "find_match e w a bs = Ret (Some k)"
    by blast
  with h show "\<exists>m1. next_pair e w (a # as) (b # bs) = Ret (0, a # as, a # m1)"
    by (simp add: next_pair_def prefer_match_def Let_def)
qed

theorem exact_match_preferred_witness:
  "(\<exists>m0. next_pair (c_env\<lparr>ignore_file_name_case := True\<rparr>) w_collating
            [''A'', ''a''] [''a''] = Ret (0, ''a'' # m0, [''a'']))
   \<and> (\<exists>m1. next_pair (c_env\<lparr>ignore_file_name_case := True\<rparr>) w_collating
              [''a''] [''A'', ''a''] = Ret (0, [''a''], ''a'' # m1))"
proof -
  let ?e = "c_env\<lparr>ignore_file_name_case := True\<rparr>"
  have l: "ignore_file_name_case ?e \<and> compare_names ?e w_collating ''A'' ''a'' = Ret 0
           \<and> file_name_cmp ''A'' ''a'' < 0
           \<and> ''a'' \<in> set (takeWhile (\<lambda>p. compare_names ?e w_collating p ''a'' = Ret 0) [''a''])
           \<and> sorted_wrt (\<lambda>x y. file_name_cmp x y < 0)
                (takeWhile (\<lambda>p. compare_names ?e w_collating p ''a'' = Ret 0) [''a''])"
    by code_simp
  have r: "ignore_file_name_case ?e \<and> compare_names ?e w_collating ''a'' ''A'' = Ret 0
           \<and> 0 < file_name_cmp ''a'' ''A''
           \<and> ''a'' \<in> set (takeWhile (\<lambda>p. compare_names ?e w_collating p ''a'' = Ret 0) [''a''])
           \<and> sorted_wrt (\<lambda>x y. file_name_cmp x y < 0)
                (takeWhile (\<lambda>p. compare_names ?e w_collating p ''a'' = Ret 0) [''a''])"
    by code_simp
  from exact_match_preferred [of "\<lambda>a b. 0" 1 top_cmp "(2, 2)" 0 "[]" ?e w_collating
                                 "''A''" "''a''" "[''a'']" "[]"] l
  have p0: "\<exists>m0. next_pair ?e w_collating [''A'', ''a''] [''a''] = Ret (0, ''a'' # m0, [''a''])"
    by blast
  from exact_match_preferred [of "\<lambda>a b. 0" 1 top_cmp "(2, 2)" 0 "[]" ?e w_collating
                                 "''a''" "''A''" "[]" "[''a'']"] r
  have p1: "\<exists>m1. next_pair ?e w_collating [''a''] [''A'', ''a''] = Ret (0, [''a''], ''a'' # m1)"
    by blast
  from p0 p1 show ?thesis by blast
qed


subsection \<open>The merge of directories with no name in common\<close>

text \<open>
  The order of the comparator, as a relation, and the name a one-sided pair delivers.
\<close>

definition name_le :: "env \<Rightarrow> world \<Rightarrow> string \<Rightarrow> string \<Rightarrow> bool" where
  "name_le e w x y = (case compare_names e w x y of Ret r \<Rightarrow> r \<le> 0 | Longjmp en a b \<Rightarrow> False)"

definition delivered_name :: "pair \<Rightarrow> string" where
  "delivered_name pr = (case fst pr of Some x \<Rightarrow> x | None \<Rightarrow> (case snd pr of Some y \<Rightarrow> y | None \<Rightarrow> []))"

definition one_sided :: "pair \<Rightarrow> bool" where
  "one_sided pr = ((fst pr = None) \<noteq> (snd pr = None))"

lemma delivered_names_set:
  "\<forall>pr\<in>set new. one_sided pr
   \<Longrightarrow> set (map delivered_name new) = set (left_names new) \<union> set (right_names new)"
proof (induction new)
  case Nil
  then show ?case by simp
next
  case (Cons pr new)
  obtain a b where pr: "pr = (a, b)" by (cases pr)
  from Cons.prems pr have "one_sided (a, b)" by simp
  with Cons pr show ?case
    by (cases a; cases b) (auto simp: delivered_name_def one_sided_def)
qed

lemma merge_step_left:
  assumes "n1 = [] \<or> (\<exists>b bs r. n1 = b # bs \<and> compare_names e w a b = Ret r \<and> r < 0)"
  shows "compare_dirs e (leaf_handler f) fr cmp nn Merging w (a # as) n1 val calls =
           compare_dirs e (leaf_handler f) fr cmp nn Merging w as n1
             (if val < f (Some a) None then f (Some a) None else val)
             (calls @ [(Some a, None)])"
proof -
  from assms obtain r where np: "next_pair e w (a # as) n1 = Ret (r, a # as, n1)" and r: "r < 0"
    by (cases n1) (auto simp: next_pair_def)
  then show ?thesis
    by (simp add: compare_dirs_merging [of e _ fr cmp nn w "a # as"] take_name_def leaf_handler_def)
qed

lemma merge_step_right:
  assumes "n0 = [] \<or> (\<exists>a as r. n0 = a # as \<and> compare_names e w a b = Ret r \<and> 0 < r)"
  shows "compare_dirs e (leaf_handler f) fr cmp nn Merging w n0 (b # bs) val calls =
           compare_dirs e (leaf_handler f) fr cmp nn Merging w n0 bs
             (if val < f None (Some b) then f None (Some b) else val)
             (calls @ [(None, Some b)])"
proof -
  from assms obtain r where np: "next_pair e w n0 (b # bs) = Ret (r, n0, b # bs)" and r: "0 < r"
    by (cases n0) (auto simp: next_pair_def)
  then show ?thesis
    by (simp add: compare_dirs_merging [of e _ fr cmp nn w n0 "b # bs"] take_name_def
                  leaf_handler_def)
qed


text \<open>What the ordering hypotheses of the merge say of two vectors.\<close>

definition ordered_tables :: "env \<Rightarrow> world \<Rightarrow> string list \<Rightarrow> string list \<Rightarrow> bool" where
  "ordered_tables e w n0 n1 =
     (sorted_wrt (name_le e w) n0 \<and> sorted_wrt (name_le e w) n1
      \<and> (\<forall>x\<in>set n0 \<union> set n1. \<forall>y\<in>set n0 \<union> set n1. \<forall>z\<in>set n0 \<union> set n1.
            name_le e w x y \<and> name_le e w y z \<longrightarrow> name_le e w x z)
      \<and> (\<forall>a\<in>set n0. \<forall>b\<in>set n1. name_le e w a b \<or> name_le e w b a))"

lemma ordered_tables_sub:
  assumes "ordered_tables e w n0 n1" and "set m0 \<subseteq> set n0" and "set m1 \<subseteq> set n1"
    and "sorted_wrt (name_le e w) m0" and "sorted_wrt (name_le e w) m1"
  shows "ordered_tables e w m0 m1"
proof -
  let ?S = "set n0 \<union> set n1" and ?T = "set m0 \<union> set m1"
  from assms(1)
  have tr: "\<forall>x\<in>?S. \<forall>y\<in>?S. \<forall>z\<in>?S. name_le e w x y \<and> name_le e w y z \<longrightarrow> name_le e w x z"
    unfolding ordered_tables_def by (elim conjE)
  from assms(1)
  have tot: "\<forall>a\<in>set n0. \<forall>b\<in>set n1. name_le e w a b \<or> name_le e w b a"
    unfolding ordered_tables_def by (elim conjE)
  from assms(2,3) have sub: "?T \<subseteq> ?S" by blast
  have "\<forall>x\<in>?T. \<forall>y\<in>?T. \<forall>z\<in>?T. name_le e w x y \<and> name_le e w y z \<longrightarrow> name_le e w x z"
  proof (intro ballI)
    fix x y z
    assume "x \<in> ?T" "y \<in> ?T" "z \<in> ?T"
    with sub have "x \<in> ?S" "y \<in> ?S" "z \<in> ?S" by blast+
    with tr show "name_le e w x y \<and> name_le e w y z \<longrightarrow> name_le e w x z" by blast
  qed
  moreover have "\<forall>a\<in>set m0. \<forall>b\<in>set m1. name_le e w a b \<or> name_le e w b a"
  proof (intro ballI)
    fix a b
    assume "a \<in> set m0" "b \<in> set m1"
    with assms(2,3) have "a \<in> set n0" "b \<in> set n1" by blast+
    with tot show "name_le e w a b \<or> name_le e w b a" by blast
  qed
  ultimately show ?thesis using assms(4,5) unfolding ordered_tables_def by (intro conjI)
qed

lemma ordered_tables_sorted:
  "ordered_tables e w n0 n1 \<Longrightarrow> sorted_wrt (name_le e w) n0 \<and> sorted_wrt (name_le e w) n1"
  unfolding ordered_tables_def by (elim conjE, intro conjI)

lemma ordered_tables_left: "ordered_tables e w (a # as) n1 \<Longrightarrow> ordered_tables e w as n1"
proof -
  assume o: "ordered_tables e w (a # as) n1"
  from ordered_tables_sorted [OF o]
  have "sorted_wrt (name_le e w) as" "sorted_wrt (name_le e w) n1" by simp_all
  with ordered_tables_sub [OF o, of as n1] show ?thesis by auto
qed

lemma ordered_tables_right: "ordered_tables e w n0 (b # bs) \<Longrightarrow> ordered_tables e w n0 bs"
proof -
  assume o: "ordered_tables e w n0 (b # bs)"
  from ordered_tables_sorted [OF o]
  have "sorted_wrt (name_le e w) n0" "sorted_wrt (name_le e w) bs" by simp_all
  with ordered_tables_sub [OF o, of n0 bs] show ?thesis by auto
qed

lemma ordered_tables_trans:
  assumes "ordered_tables e w n0 n1" and "x \<in> set n0 \<union> set n1" and "y \<in> set n0 \<union> set n1"
    and "z \<in> set n0 \<union> set n1" and "name_le e w x y" and "name_le e w y z"
  shows "name_le e w x z"
proof -
  from assms(1)
  have "\<forall>x\<in>set n0 \<union> set n1. \<forall>y\<in>set n0 \<union> set n1. \<forall>z\<in>set n0 \<union> set n1.
          name_le e w x y \<and> name_le e w y z \<longrightarrow> name_le e w x z"
    unfolding ordered_tables_def by (elim conjE)
  with assms(2-6) show ?thesis by blast
qed

lemma ordered_tables_total:
  assumes "ordered_tables e w n0 n1" and "a \<in> set n0" and "b \<in> set n1"
  shows "name_le e w a b \<or> name_le e w b a"
proof -
  from assms(1) have "\<forall>a\<in>set n0. \<forall>b\<in>set n1. name_le e w a b \<or> name_le e w b a"
    unfolding ordered_tables_def by (elim conjE)
  with assms(2,3) show ?thesis by blast
qed

lemma first_left:
  assumes "ordered_tables e w (a # as) n1"
    and "n1 = [] \<or> (\<exists>b bs r. n1 = b # bs \<and> compare_names e w a b = Ret r \<and> r < 0)"
    and "y \<in> set as \<union> set n1"
  shows "name_le e w a y"
proof (cases "y \<in> set as")
  case True
  with ordered_tables_sorted [OF assms(1)] show ?thesis by simp
next
  case False
  with assms(2,3) obtain b bs r
    where n1: "n1 = b # bs" and c: "compare_names e w a b = Ret r" "r < 0" and y: "y \<in> set (b # bs)"
    by auto
  from c have ab: "name_le e w a b" by (simp add: name_le_def)
  show ?thesis
  proof (cases "y = b")
    case True
    with ab show ?thesis by simp
  next
    case False
    with y have yb: "y \<in> set bs" by simp
    with ordered_tables_sorted [OF assms(1)] n1 have b_le_y: "name_le e w b y" by simp
    have "a \<in> set (a # as) \<union> set n1" "b \<in> set (a # as) \<union> set n1" "y \<in> set (a # as) \<union> set n1"
      using n1 yb by simp_all
    from ordered_tables_trans [OF assms(1) this ab b_le_y] show ?thesis .
  qed
qed

lemma first_right:
  assumes "ordered_tables e w n0 (b # bs)"
    and "n0 = [] \<or> (\<exists>a as r. n0 = a # as \<and> compare_names e w a b = Ret r \<and> 0 < r)"
    and "y \<in> set n0 \<union> set bs"
  shows "name_le e w b y"
proof (cases "y \<in> set bs")
  case True
  with ordered_tables_sorted [OF assms(1)] show ?thesis by simp
next
  case False
  with assms(2,3) obtain a as r
    where n0: "n0 = a # as" and c: "compare_names e w a b = Ret r" "0 < r" and y: "y \<in> set (a # as)"
    by auto
  from c have "\<not> name_le e w a b" by (simp add: name_le_def)
  moreover from n0 have "a \<in> set n0" "b \<in> set (b # bs)" by simp_all
  ultimately have ba: "name_le e w b a" using ordered_tables_total [OF assms(1)] by blast
  show ?thesis
  proof (cases "y = a")
    case True
    with ba show ?thesis by simp
  next
    case False
    with y have ya: "y \<in> set as" by simp
    with ordered_tables_sorted [OF assms(1)] n0 have ay: "name_le e w a y" by simp
    have "b \<in> set n0 \<union> set (b # bs)" "a \<in> set n0 \<union> set (b # bs)" "y \<in> set n0 \<union> set (b # bs)"
      using n0 ya by simp_all
    from ordered_tables_trans [OF assms(1) this ba ay] show ?thesis .
  qed
qed


text \<open>
  The merge of two vectors no name of which ties with a name of the other, with a
  handler that leaves the state alone.
\<close>

lemma merge_disjoint_run:
  assumes "\<forall>a\<in>set n0. \<forall>b\<in>set n1. \<exists>r. compare_names e w a b = Ret r \<and> r \<noteq> 0"
  shows "\<exists>v new. compare_dirs e (leaf_handler f) fr cmp nn Merging w n0 n1 val calls
                   = Inr (w, v, calls @ new)
           \<and> length new = length n0 + length n1 \<and> (\<forall>pr\<in>set new. one_sided pr)
           \<and> left_names new = n0 \<and> right_names new = n1
           \<and> (ordered_tables e w n0 n1 \<longrightarrow> sorted_wrt (name_le e w) (map delivered_name new))"
  using assms
proof (induction "length n0 + length n1" arbitrary: n0 n1 val calls rule: less_induct)
  case less
  note IH = less.hyps and dis = less.prems
  consider (finished) "n0 = []" "n1 = []"
    | (left) a as where "n0 = a # as"
        "n1 = [] \<or> (\<exists>b bs r. n1 = b # bs \<and> compare_names e w a b = Ret r \<and> r < 0)"
    | (right) b bs where "n1 = b # bs"
        "n0 = [] \<or> (\<exists>a as r. n0 = a # as \<and> compare_names e w a b = Ret r \<and> 0 < r)"
  proof (cases n0)
    case Nil
    then show ?thesis using finished right by (cases n1) auto
  next
    case (Cons a as)
    note n0 = this
    show ?thesis
    proof (cases n1)
      case Nil
      with n0 left show ?thesis by simp
    next
      case (Cons b bs)
      with n0 dis obtain r where r: "compare_names e w a b = Ret r" "r \<noteq> 0" by auto
      show ?thesis
      proof (cases "r < 0")
        case True
        with n0 Cons r left show ?thesis by simp
      next
        case False
        with r have "0 < r" by simp
        with n0 Cons r right show ?thesis by simp
      qed
    qed
  qed
  then show ?case
  proof cases
    case finished
    then have "compare_dirs e (leaf_handler f) fr cmp nn Merging w n0 n1 val calls
               = Inr (w, val, calls @ [])"
      by (simp add: compare_dirs_merging)
    with finished show ?thesis by (intro exI [of _ val] exI [of _ "[]"]) simp
  next
    case (left a as)
    let ?val = "if val < f (Some a) None then f (Some a) None else val"
    from dis left(1)
    have dis': "\<forall>x\<in>set as. \<forall>b\<in>set n1. \<exists>r. compare_names e w x b = Ret r \<and> r \<noteq> 0" by simp
    from left(1) have "length as + length n1 < length n0 + length n1" by simp
    from IH [OF this dis', of ?val "calls @ [(Some a, None)]"] obtain v new
      where run: "compare_dirs e (leaf_handler f) fr cmp nn Merging w as n1 ?val
                    (calls @ [(Some a, None)]) = Inr (w, v, (calls @ [(Some a, None)]) @ new)"
        and len: "length new = length as + length n1" and one: "\<forall>pr\<in>set new. one_sided pr"
        and ln: "left_names new = as" and rn: "right_names new = n1"
        and srt: "ordered_tables e w as n1 \<longrightarrow> sorted_wrt (name_le e w) (map delivered_name new)"
      by blast
    let ?new = "(Some a, None) # new"
    from merge_step_left [OF left(2), of f fr cmp nn as val calls] run left(1)
    have "compare_dirs e (leaf_handler f) fr cmp nn Merging w n0 n1 val calls
          = Inr (w, v, calls @ ?new)"
      by simp
    moreover from len left(1) have "length ?new = length n0 + length n1" by simp
    moreover from one have "\<forall>pr\<in>set ?new. one_sided pr" by (simp add: one_sided_def)
    moreover from ln left(1) have "left_names ?new = n0" by simp
    moreover from rn have "right_names ?new = n1" by simp
    moreover have "ordered_tables e w n0 n1 \<longrightarrow> sorted_wrt (name_le e w) (map delivered_name ?new)"
    proof
      assume o: "ordered_tables e w n0 n1"
      with left(1) have o': "ordered_tables e w (a # as) n1" by simp
      from srt ordered_tables_left [OF o'] have s: "sorted_wrt (name_le e w) (map delivered_name new)"
        by blast
      from delivered_names_set [OF one] ln rn
      have "set (map delivered_name new) = set as \<union> set n1" by simp
      with first_left [OF o' left(2)] have "\<forall>y\<in>set (map delivered_name new). name_le e w a y"
        by blast
      with s show "sorted_wrt (name_le e w) (map delivered_name ?new)"
        by (simp add: delivered_name_def)
    qed
    ultimately show ?thesis by blast
  next
    case (right b bs)
    let ?val = "if val < f None (Some b) then f None (Some b) else val"
    from dis right(1)
    have dis': "\<forall>a\<in>set n0. \<forall>x\<in>set bs. \<exists>r. compare_names e w a x = Ret r \<and> r \<noteq> 0" by simp
    from right(1) have "length n0 + length bs < length n0 + length n1" by simp
    from IH [OF this dis', of ?val "calls @ [(None, Some b)]"] obtain v new
      where run: "compare_dirs e (leaf_handler f) fr cmp nn Merging w n0 bs ?val
                    (calls @ [(None, Some b)]) = Inr (w, v, (calls @ [(None, Some b)]) @ new)"
        and len: "length new = length n0 + length bs" and one: "\<forall>pr\<in>set new. one_sided pr"
        and ln: "left_names new = n0" and rn: "right_names new = bs"
        and srt: "ordered_tables e w n0 bs \<longrightarrow> sorted_wrt (name_le e w) (map delivered_name new)"
      by blast
    let ?new = "(None, Some b) # new"
    from merge_step_right [OF right(2), of f fr cmp nn bs val calls] run right(1)
    have "compare_dirs e (leaf_handler f) fr cmp nn Merging w n0 n1 val calls
          = Inr (w, v, calls @ ?new)"
      by simp
    moreover from len right(1) have "length ?new = length n0 + length n1" by simp
    moreover from one have "\<forall>pr\<in>set ?new. one_sided pr" by (simp add: one_sided_def)
    moreover from ln have "left_names ?new = n0" by simp
    moreover from rn right(1) have "right_names ?new = n1" by simp
    moreover have "ordered_tables e w n0 n1 \<longrightarrow> sorted_wrt (name_le e w) (map delivered_name ?new)"
    proof
      assume o: "ordered_tables e w n0 n1"
      with right(1) have o': "ordered_tables e w n0 (b # bs)" by simp
      from srt ordered_tables_right [OF o'] have s: "sorted_wrt (name_le e w) (map delivered_name new)"
        by blast
      from delivered_names_set [OF one] ln rn
      have "set (map delivered_name new) = set n0 \<union> set bs" by simp
      with first_right [OF o' right(2)] have "\<forall>y\<in>set (map delivered_name new). name_le e w b y"
        by blast
      with s show "sorted_wrt (name_le e w) (map delivered_name ?new)"
        by (simp add: delivered_name_def)
    qed
    ultimately show ?thesis by blast
  qed
qed


text \<open>
  C5. When no name of one vector ties with a name of the other under the comparator
  in force (and no such comparison fails), the merge calls the handler exactly
  \<open>|left| + |right|\<close> times, every pair has exactly one side null, the names of each
  side are delivered in the order of their vector, an exhausted side letting the other
  drain; and if the vectors are sorted under the comparator, which is transitive and
  total on their names, the names are delivered in sorted order.
\<close>

theorem merge_disjoint_tables:
  assumes "\<forall>a\<in>set n0. \<forall>b\<in>set n1. \<exists>r. compare_names e w a b = Ret r \<and> r \<noteq> 0"
  shows "\<exists>v new. compare_dirs e (leaf_handler f) fr cmp nn Merging w n0 n1 val calls
                   = Inr (w, v, calls @ new)
           \<and> length new = length n0 + length n1
           \<and> (\<forall>pr\<in>set new. (fst pr = None) \<noteq> (snd pr = None))
           \<and> left_names new = n0 \<and> right_names new = n1
           \<and> (ordered_tables e w n0 n1 \<longrightarrow> sorted_wrt (name_le e w) (map delivered_name new))"
  using merge_disjoint_run [OF assms, of f fr cmp nn val calls]
  unfolding one_sided_def by blast

theorem merge_disjoint_tables_witness:
  "\<exists>v new. compare_dirs c_env (leaf_handler (\<lambda>a b. 1)) 1 top_cmp (2, 1) Merging w_start
              [''a'', ''c''] [''b''] 0 [] = Inr (w_start, v, new)
     \<and> length new = 3
     \<and> left_names new = [''a'', ''c''] \<and> right_names new = [''b'']
     \<and> sorted_wrt (name_le c_env w_start) (map delivered_name new)"
proof -
  have cmp: "\<And>x y. compare_names c_env w_start x y = Ret (strcmp x y)"
    by (simp add: compare_names_def w_start_def file_name_cmp_def)
  have dis: "\<forall>a\<in>set [''a'', ''c'']. \<forall>b\<in>set [''b''].
               \<exists>r. compare_names c_env w_start a b = Ret r \<and> r \<noteq> 0"
    by (simp add: cmp)
  have ord: "ordered_tables c_env w_start [''a'', ''c''] [''b'']"
    by code_simp
  from merge_disjoint_tables [OF dis, of "\<lambda>a b. 1" 1 top_cmp "(2, 1)" 0 "[]"] ord
  show ?thesis by auto
qed


subsection \<open>The fallback to byte order when collation fails\<close>

text \<open>
  Once collation is off, nothing depends on the collation functions any more: the
  sort, the scan of the tie-break and the merge give the same result under any other
  pair of them.
\<close>

lemma insert_name_raw_env:
  "\<not> locale_specific_sorting w
   \<Longrightarrow> insert_name (e\<lparr>strcoll := sc, strcasecoll := scc\<rparr>) w x ys = insert_name e w x ys"
  by (induction ys) (simp_all add: compare_names_for_qsort_raw)

lemma qsort_raw_env:
  "\<not> locale_specific_sorting w
   \<Longrightarrow> qsort (e\<lparr>strcoll := sc, strcasecoll := scc\<rparr>) w xs = qsort e w xs"
  by (induction xs) (simp_all add: insert_name_raw_env split: jmp.splits)

lemma sort_both_raw_env:
  "\<not> locale_specific_sorting w
   \<Longrightarrow> sort_both (e\<lparr>strcoll := sc, strcasecoll := scc\<rparr>) w nn n0 n1 = sort_both e w nn n0 n1"
  by (simp add: sort_both_def sort_names_def qsort_raw_env split: jmp.splits sum.splits)

lemma find_match_raw_env:
  "\<not> locale_specific_sorting w
   \<Longrightarrow> find_match (e\<lparr>strcoll := sc, strcasecoll := scc\<rparr>) w g ps = find_match e w g ps"
  by (induction ps) (simp_all add: compare_names_raw)

lemma next_pair_raw_env:
  "\<not> locale_specific_sorting w
   \<Longrightarrow> next_pair (e\<lparr>strcoll := sc, strcasecoll := scc\<rparr>) w n0 n1 = next_pair e w n0 n1"
  by (simp add: next_pair_def prefer_match_def find_match_raw_env compare_names_raw
           split: list.splits)

lemma compare_dirs_raw_env:
  assumes "\<not> locale_specific_sorting w" and "h = leaf_handler f"
  shows "compare_dirs (e\<lparr>strcoll := sc, strcasecoll := scc\<rparr>) h fr cmp nn ph w n0 n1 val calls
         = compare_dirs e h fr cmp nn ph w n0 n1 val calls"
  using assms
proof (induction e h fr cmp nn ph w n0 n1 val calls rule: compare_dirs.induct)
  case (1 e h fr cmp nn ph w n0 n1 val calls)
  note raw = "1.prems"(1) and leaf = "1.prems"(2)
  let ?e = "e\<lparr>strcoll := sc, strcasecoll := scc\<rparr>"
  show ?case
  proof (cases ph)
    case Sorting
    show ?thesis
    proof (cases "sort_both e w nn n0 n1")
      case (Inl err)
      with Sorting raw show ?thesis
        by (simp add: compare_dirs_sorting sort_both_raw_env)
    next
      case (Inr b)
      show ?thesis
      proof (cases b)
        case (Ret x1)
        obtain s0 s1 where x1: "x1 = (s0, s1)" by (cases x1)
        from Inr Ret x1 have sb: "sort_both e w nn n0 n1 = Inr (Ret (s0, s1))" by simp
        from sb raw have sb': "sort_both ?e w nn n0 n1 = Inr (Ret (s0, s1))"
          by (simp add: sort_both_raw_env)
        have lhs: "compare_dirs ?e h fr cmp nn Sorting w n0 n1 val calls
                   = compare_dirs ?e h fr cmp nn Merging w s0 s1 val calls"
          by (subst compare_dirs_sorting) (simp add: sb')
        have rhs: "compare_dirs e h fr cmp nn Sorting w n0 n1 val calls
                   = compare_dirs e h fr cmp nn Merging w s0 s1 val calls"
          by (subst compare_dirs_sorting) (simp add: sb)
        from "1.IH"(1) [OF Sorting sb refl refl raw leaf]
        show ?thesis unfolding Sorting lhs rhs .
      next
        case (Longjmp en a b')
        with Inr have "sort_both e w nn n0 n1 = Inr (Longjmp en a b')" by simp
        from sort_both_jump [OF this] raw show ?thesis by simp
      qed
    qed
  next
    case Merging
    show ?thesis
    proof (cases "n0 = [] \<and> n1 = []")
      case True
      with Merging show ?thesis by (simp add: compare_dirs_merging)
    next
      case False
      show ?thesis
      proof (cases "next_pair e w n0 n1")
        case (Longjmp en a b')
        from next_pair_jump [OF this] raw show ?thesis by simp
      next
        case (Ret x1)
        obtain nameorder m0 m1 where x1: "x1 = (nameorder, m0, m1)" by (cases x1)
        with Ret have np: "next_pair e w n0 n1 = Ret (nameorder, m0, m1)" by simp
        obtain a0 r0 where t0: "take_name (0 < nameorder) m0 = (a0, r0)"
          by (cases "take_name (0 < nameorder) m0")
        obtain a1 r1 where t1: "take_name (nameorder < 0) m1 = (a1, r1)"
          by (cases "take_name (nameorder < 0) m1")
        from leaf have hr: "h w cmp a0 a1 = Inr (w, f a0 a1)" by (simp add: leaf_handler_def)
        let ?val = "if val < f a0 a1 then f a0 a1 else val"
        from np raw have np': "next_pair ?e w n0 n1 = Ret (nameorder, m0, m1)"
          by (simp add: next_pair_raw_env)
        have lhs: "compare_dirs ?e h fr cmp nn Merging w n0 n1 val calls
                   = compare_dirs ?e h fr cmp nn Merging w r0 r1 ?val (calls @ [(a0, a1)])"
          by (subst compare_dirs_merging) (simp add: False np' t0 t1 hr)
        have rhs: "compare_dirs e h fr cmp nn Merging w n0 n1 val calls
                   = compare_dirs e h fr cmp nn Merging w r0 r1 ?val (calls @ [(a0, a1)])"
          by (subst compare_dirs_merging) (simp add: False np t0 t1 hr)
        from "1.IH"(3) [OF Merging False np refl refl t0 [symmetric] t1 [symmetric] hr refl
                           raw leaf]
        show ?thesis unfolding Merging lhs rhs .
      qed
    qed
  qed
qed

text \<open>With collation off and the sort within bounds, the run returns and the state is
  as it was.\<close>

lemma compare_dirs_raw_returns:
  assumes "\<not> locale_specific_sorting w"
    and "ph = Sorting \<longrightarrow> (length n0 = fst nn \<or> fst nn \<le> 1) \<and> (length n1 = snd nn \<or> snd nn \<le> 1)"
  shows "\<exists>v new. compare_dirs e (leaf_handler f) fr cmp nn ph w n0 n1 val calls
                  = Inr (w, v, calls @ new)"
proof -
  let ?e = "e\<lparr>strcoll := (\<lambda>a b. (0, 0)), strcasecoll := (\<lambda>a b. (0, 0))\<rparr>"
  have nf: "\<forall>a b. \<exists>r. compare_collated ?e a b = Ret r"
    by (simp add: compare_collated_def)
  have tot: "\<forall>w c a b. \<exists>w' v. leaf_handler f w c a b = Inr (w', v)"
    by (simp add: leaf_handler_def)
  from compare_dirs_returns [OF nf tot assms(2), of fr cmp w val calls] obtain w' v cs
    where "compare_dirs ?e (leaf_handler f) fr cmp nn ph w n0 n1 val calls = Inr (w', v, cs)"
    by blast
  with compare_dirs_raw_env [OF assms(1) refl, where e = e and sc = "\<lambda>a b. (0, 0)"
                               and scc = "\<lambda>a b. (0, 0)"]
  have run: "compare_dirs e (leaf_handler f) fr cmp nn ph w n0 n1 val calls = Inr (w', v, cs)"
    by simp
  from compare_dirs_leaf_world [OF run refl] assms(1) have "w' = w" by blast
  moreover from compare_dirs_leaf_value [OF run refl] obtain new where "cs = calls @ new" by blast
  ultimately show ?thesis using run by blast
qed


text \<open>
  A failure while the vectors are sorted is recovered: with a handler that leaves the
  state alone, the run prints the one diagnostic, turns collation off and completes.
\<close>

lemma fallback_while_sorting:
  assumes "locale_specific_sorting w" and "failed_locale_specific_sorting w = fr"
    and "length n0 = fst nn \<or> fst nn \<le> 1" and "length n1 = snd nn \<or> snd nn \<le> 1"
    and "sort_both e w nn n0 n1 = Inr (Longjmp en a b)"
  shows "\<exists>v new. compare_dirs e (leaf_handler f) fr cmp nn Sorting w n0 n1 val calls
                 = Inr (w\<lparr>trace := trace w @ [Error_compare en a b],
                          locale_specific_sorting := False\<rparr>, v, calls @ new)"
proof -
  let ?w1 = "w\<lparr>trace := trace w @ [Error_compare en a b], locale_specific_sorting := False\<rparr>"
  from assms(2) have land: "landing fr w en a b = Inr ?w1"
    by (simp add: landing_def Let_def)
  have raw: "\<not> locale_specific_sorting ?w1" by simp
  from assms(3,4)
  have "Sorting = Sorting \<longrightarrow> (length n0 = fst nn \<or> fst nn \<le> 1)
                                \<and> (length n1 = snd nn \<or> snd nn \<le> 1)"
    by simp
  from compare_dirs_raw_returns [OF raw this]
  obtain v new where "compare_dirs e (leaf_handler f) fr cmp nn Sorting ?w1 n0 n1 val calls
                      = Inr (?w1, v, calls @ new)"
    by blast
  moreover have "compare_dirs e (leaf_handler f) fr cmp nn Sorting w n0 n1 val calls
                 = compare_dirs e (leaf_handler f) fr cmp nn Sorting ?w1 n0 n1 val calls"
    by (subst compare_dirs_sorting) (simp add: assms(5) land)
  ultimately show ?thesis by auto
qed

text \<open>
  C3. The claim is that after a collation failure every later name comparison of the
  same top-level comparison is on bytes, that one diagnostic is printed and that the
  run completes. The code attempts this at lines 251 to 254 and misses it in the three
  runs evaluated here. In the first, collation fails on \<open>c\<close> and \<open>b\<close>, which meet in the
  merge after \<open>a\<close> was handed over: the jump lands at line 253 and the sort of lines 257
  to 259 is given the cursor that has advanced together with the full count, so it
  reads beyond the vector. In the second, the handler recurses into the matched
  subdirectories: the inner call turns collation on again at line 252, and one
  top-level comparison prints two failure diagnostics. In the third, the inner call
  has filled the jump buffer and returned when the outer merge collates \<open>t\<close> and \<open>u\<close>:
  the jump leads into a function that has returned.
\<close>

theorem collation_fallback_breaks:
  "diff_dirs late_failure_env (leaf_handler (\<lambda>a b. 1)) w_start top_cmp = Inl Sort_past_end
   \<and> diagnostics_of (diff_dirs nested_env (descend nested_env) w_start top_cmp)
       = [Error_compare 22 ''s'' ''s'', Error_compare 22 ''x'' ''y'']
   \<and> diff_dirs stale_env (descend stale_env) w_start top_cmp = Inl Stale_longjmp"
  by code_simp


end
